theory Spec2Isabelle
  imports Main "HOL-Library.AList" "HOL-Library.Sublist" "HOL-Library.Multiset"
begin

section \<open>Strings\<close>

text \<open>
  A Go string is a sequence of bytes, UTF-8 where it holds text; it is modelled as a
  \<open>string\<close>, a list of 8-bit characters. The helpers below are the functions of the Go
  standard library that the program calls, on byte strings.
\<close>

definition sq :: string where
  "sq = [CHR 0x27]"

definition dq :: string where
  "dq = [CHR 0x22]"

definition nl :: string where
  "nl = [CHR 0x0A]"

definition em_dash :: string where
  "em_dash = [CHR 0xE2, CHR 0x80, CHR 0x94]"

definition lower_byte :: "char \<Rightarrow> char" where
  "lower_byte c =
     (let n = (of_char c :: nat) in if 65 \<le> n \<and> n \<le> 90 then char_of (n + 32) else c)"

text \<open>
  \<open>strings.ToLower\<close>. The program compares its result with ASCII keywords only, so
  what matters is which bytes become ASCII letters: the upper-case ASCII letters, and
  the two code points whose lower case is ASCII, U+0130 (bytes C4 B0, lower case
  \<open>i\<close>) and U+212A (bytes E2 84 AA, lower case \<open>k\<close>). Every other byte beyond ASCII
  is kept: its lower-case form is not ASCII either.
\<close>

fun ToLower :: "string \<Rightarrow> string" where
  "ToLower [] = []"
| "ToLower (a # b # c # rest) =
     (if a = CHR 0xE2 \<and> b = CHR 0x84 \<and> c = CHR 0xAA then CHR ''k'' # ToLower rest
      else if a = CHR 0xC4 \<and> b = CHR 0xB0 then CHR ''i'' # ToLower (c # rest)
      else lower_byte a # ToLower (b # c # rest))"
| "ToLower [a, b] =
     (if a = CHR 0xC4 \<and> b = CHR 0xB0 then [CHR ''i''] else lower_byte a # ToLower [b])"
| "ToLower [a] = [lower_byte a]"

fun HasPrefix :: "string \<Rightarrow> string \<Rightarrow> bool" where
  "HasPrefix s [] = True"
| "HasPrefix [] (p # ps) = False"
| "HasPrefix (c # cs) (p # ps) = (c = p \<and> HasPrefix cs ps)"

fun Contains :: "string \<Rightarrow> string \<Rightarrow> bool" where
  "Contains [] sub = (sub = [])"
| "Contains (c # cs) sub = (HasPrefix (c # cs) sub \<or> Contains cs sub)"

fun Join :: "string list \<Rightarrow> string \<Rightarrow> string" where
  "Join [] sep = []"
| "Join [a] sep = a"
| "Join (a # b # rest) sep = a @ sep @ Join (b # rest) sep"

text \<open>
  \<open>strings.TrimSpace\<close> removes the leading and trailing white space of Unicode: the
  six ASCII characters and the UTF-8 encodings of U+0085, U+00A0, U+1680, U+2000 to
  U+200A, U+2028, U+2029, U+202F, U+205F and U+3000.
\<close>

definition space_runes :: "string list" where
  "space_runes =
     [[CHR 0x09], [CHR 0x0A], [CHR 0x0B], [CHR 0x0C], [CHR 0x0D], [CHR 0x20],
      [CHR 0xC2, CHR 0x85], [CHR 0xC2, CHR 0xA0], [CHR 0xE1, CHR 0x9A, CHR 0x80],
      [CHR 0xE2, CHR 0x80, CHR 0x80], [CHR 0xE2, CHR 0x80, CHR 0x81],
      [CHR 0xE2, CHR 0x80, CHR 0x82], [CHR 0xE2, CHR 0x80, CHR 0x83],
      [CHR 0xE2, CHR 0x80, CHR 0x84], [CHR 0xE2, CHR 0x80, CHR 0x85],
      [CHR 0xE2, CHR 0x80, CHR 0x86], [CHR 0xE2, CHR 0x80, CHR 0x87],
      [CHR 0xE2, CHR 0x80, CHR 0x88], [CHR 0xE2, CHR 0x80, CHR 0x89],
      [CHR 0xE2, CHR 0x80, CHR 0x8A], [CHR 0xE2, CHR 0x80, CHR 0xA8],
      [CHR 0xE2, CHR 0x80, CHR 0xA9], [CHR 0xE2, CHR 0x80, CHR 0xAF],
      [CHR 0xE2, CHR 0x81, CHR 0x9F], [CHR 0xE3, CHR 0x80, CHR 0x80]]"

function strip_runes :: "string list \<Rightarrow> string \<Rightarrow> string" where
  "strip_runes table s =
     (case find (\<lambda>e. e \<noteq> [] \<and> HasPrefix s e) table of
        None \<Rightarrow> s
      | Some e \<Rightarrow> strip_runes table (drop (length e) s))"
  by pat_completeness auto
termination
proof (relation "measure (\<lambda>(table, s). length s)")
  show "wf (measure (\<lambda>(table, s). length s))"
    by simp
next
  fix table :: "string list" and s e :: string
  assume "find (\<lambda>e. e \<noteq> [] \<and> HasPrefix s e) table = Some e"
  then have "e \<noteq> []" and "HasPrefix s e"
    by (auto simp: find_Some_iff)
  then have "s \<noteq> []"
    by (cases s; cases e) auto
  with \<open>e \<noteq> []\<close> show "((table, drop (length e) s), (table, s)) \<in> measure (\<lambda>(table, s). length s)"
    by (cases s; cases e) auto
qed

definition TrimSpace :: "string \<Rightarrow> string" where
  "TrimSpace s = rev (strip_runes (map rev space_runes) (rev (strip_runes space_runes s)))"

text \<open>
  \<open>strings.ReplaceAll\<close>: the occurrences of \<open>old\<close> that do not overlap, from the left.
  With an empty \<open>old\<close> Go inserts \<open>new\<close> around every character; the program never
  does that, since the keys it replaces all start with \<open><\<close>.
\<close>

function ReplaceAll :: "string \<Rightarrow> string \<Rightarrow> string \<Rightarrow> string" where
  "ReplaceAll s old new =
     (if old = [] then new @ concat (map (\<lambda>c. c # new) s)
      else case s of
             [] \<Rightarrow> []
           | c # cs \<Rightarrow>
               (if HasPrefix s old then new @ ReplaceAll (drop (length old) s) old new
                else c # ReplaceAll cs old new))"
  by pat_completeness auto
termination
  by (relation "measure (\<lambda>(s, old, new). length s)") (auto intro: diff_less)

text \<open>\<open>fmt.Sprintf("%d", n)\<close>: the decimal digits, with a minus sign below zero.\<close>

fun nat_digits :: "nat \<Rightarrow> string" where
  "nat_digits n =
     (if n < 10 then [char_of (48 + n)]
      else nat_digits (n div 10) @ [char_of (48 + n mod 10)])"

definition itoa :: "int \<Rightarrow> string" where
  "itoa i = (if i < 0 then CHR ''-'' # nat_digits (nat (- i)) else nat_digits (nat i))"

text \<open>\<open>s[:maxLen]\<close> when the string is longer than \<open>maxLen\<close> bytes.\<close>

definition truncate_str :: "string \<Rightarrow> nat \<Rightarrow> string" where
  "truncate_str s maxLen = (if length s \<le> maxLen then s else take maxLen s)"

section \<open>Document model\<close>

text \<open>
  The contextual fields \<open>depends_on\<close>, \<open>constraints\<close> and \<open>files_scope\<close> are kept by
  the program as raw JSON (\<open>json.RawMessage\<close>) and decoded on demand. A field that is
  absent from the document is the nil message, \<open>None\<close> here. A message that is present
  is classified by what \<open>json.Unmarshal\<close> makes of it:
  \<^item> \<open>JNull\<close>: the literal \<open>null\<close>, which decodes into a nil slice without an error;
  \<^item> \<open>JStringArray xs\<close>: an array of strings, which decodes into the non-nil slice \<open>xs\<close>
    (the empty array gives an empty slice that is not nil);
  \<^item> \<open>JObject raw status reason\<close>: an object that decodes into \<open>NotApplicable\<close> with
    these two fields, \<open>raw\<close> being its text;
  \<^item> \<open>JOther raw\<close>: any other text, for which both decodings fail.
  A Go slice that may be nil is a \<open>list option\<close>, \<open>None\<close> being nil.
\<close>

datatype json_raw =
    JNull
  | JStringArray "string list"
  | JObject string string string
  | JOther string

record InputSpec =
  in_Name :: string
  in_Type :: string
  in_Constraints :: string
  in_Source :: string

record OutputSpec =
  out_Name :: string
  out_Type :: string
  out_Constraints :: string
  out_Destination :: string

record EffectSpec =
  eff_Type :: string
  eff_Target :: string

record ErrorSpec =
  Condition :: string
  Behavior :: string
  Output :: string

record NotApplicable =
  Status :: string
  Reason :: string

text \<open>
  The \<open>effects\<close> field is raw JSON as well: a string (\<open>null\<close> decodes as the empty
  string), an array of effect objects, or something else.
\<close>

datatype effects_raw =
    EString string
  | EArray "EffectSpec list"
  | EOther

record TaskNode =
  TaskID :: string
  TaskName :: string
  Goal :: string
  Inputs :: "InputSpec list"
  Outputs :: "OutputSpec list"
  Acceptance :: "string list"
  DependsOn :: "json_raw option"
  Constraints :: "json_raw option"
  FilesScope :: "json_raw option"
  NonGoals :: "string list"
  Effects :: "effects_raw option"
  ErrorCases :: "ErrorSpec list"
  Priority :: string
  Estimate :: string
  Notes :: string

record Milestone =
  Name :: string
  DependsOnMilestones :: "string list"
  TaskIDs :: "string list"

text \<open>
  \<open>Milestones\<close> is a slice that the semantic validator tests against nil, hence the
  option. The \<open>types\<close> and \<open>defaults\<close> of the graph are read by no function modelled
  here and are left out.
\<close>

record TaskGraph =
  Version :: string
  Milestones :: "Milestone list option"
  Tasks :: "TaskNode list"

text \<open>
  \<open>ParseDependsOn\<close> and \<open>ParseFilesScope\<close> return the list, the marker, or an error
  (\<open>Inl\<close> with its message). The text of an array is not kept by the model: no error
  message ever quotes it, since an array always decodes.
\<close>

definition ParseDependsOn :: "TaskNode \<Rightarrow> string + (string list option \<times> NotApplicable option)" where
  "ParseDependsOn t =
     (case DependsOn t of
        None \<Rightarrow> Inr (None, None)
      | Some JNull \<Rightarrow> Inr (None, None)
      | Some (JStringArray ids) \<Rightarrow> Inr (Some ids, None)
      | Some (JObject raw status reason) \<Rightarrow>
          (if status = ''N/A'' then Inr (None, Some \<lparr>Status = status, Reason = reason\<rparr>)
           else Inl (''depends_on must be either an array of task IDs or {'' @ dq @ ''status''
                     @ dq @ '': '' @ dq @ ''N/A'' @ dq @ '', '' @ dq @ ''reason'' @ dq @ '': ''
                     @ dq @ ''...'' @ dq @ ''}, got: '' @ raw))
      | Some (JOther raw) \<Rightarrow>
          Inl (''depends_on must be either an array of task IDs or {'' @ dq @ ''status''
               @ dq @ '': '' @ dq @ ''N/A'' @ dq @ '', '' @ dq @ ''reason'' @ dq @ '': ''
               @ dq @ ''...'' @ dq @ ''}, got: '' @ raw))"

definition ParseFilesScope :: "TaskNode \<Rightarrow> string + (string list option \<times> NotApplicable option)" where
  "ParseFilesScope t =
     (case FilesScope t of
        None \<Rightarrow> Inr (None, None)
      | Some JNull \<Rightarrow> Inr (None, None)
      | Some (JStringArray paths) \<Rightarrow> Inr (Some paths, None)
      | Some (JObject raw status reason) \<Rightarrow>
          (if status = ''N/A'' then Inr (None, Some \<lparr>Status = status, Reason = reason\<rparr>)
           else Inl (''files_scope must be either an array of file paths or {'' @ dq @ ''status''
                     @ dq @ '': '' @ dq @ ''N/A'' @ dq @ '', '' @ dq @ ''reason'' @ dq @ '': ''
                     @ dq @ ''...'' @ dq @ ''}, got: '' @ raw))
      | Some (JOther raw) \<Rightarrow>
          Inl (''files_scope must be either an array of file paths or {'' @ dq @ ''status''
               @ dq @ '': '' @ dq @ ''N/A'' @ dq @ '', '' @ dq @ ''reason'' @ dq @ '': ''
               @ dq @ ''...'' @ dq @ ''}, got: '' @ raw))"

section \<open>Field mapping\<close>

definition MapPriority :: "string \<Rightarrow> int" where
  "MapPriority priority =
     (let p = ToLower priority in
      if p = ''critical'' then 0
      else if p = ''high'' then 1
      else if p = ''medium'' then 2
      else if p = ''low'' then 3
      else 2)"

definition MapEstimate :: "string \<Rightarrow> int" where
  "MapEstimate estimate =
     (let e = ToLower estimate in
      if e = ''trivial'' then 15
      else if e = ''small'' then 60
      else if e = ''medium'' then 240
      else if e = ''large'' then 480
      else 0)"

text \<open>\<open>parseStringArrayOrNA\<close>: the decoded array, nil for anything else.\<close>

definition parseStringArrayOrNA :: "json_raw option \<Rightarrow> string list option" where
  "parseStringArrayOrNA raw =
     (case raw of
        None \<Rightarrow> None
      | Some JNull \<Rightarrow> None
      | Some (JStringArray arr) \<Rightarrow> Some arr
      | Some (JObject r s rs) \<Rightarrow> None
      | Some (JOther r) \<Rightarrow> None)"

definition slice_len :: "'a list option \<Rightarrow> nat" where
  "slice_len xs = (case xs of None \<Rightarrow> 0 | Some ys \<Rightarrow> length ys)"

definition slice_elems :: "'a list option \<Rightarrow> 'a list" where
  "slice_elems xs = (case xs of None \<Rightarrow> [] | Some ys \<Rightarrow> ys)"

definition input_line :: "InputSpec \<Rightarrow> string" where
  "input_line i =
     ''- **'' @ in_Name i @ ''** (`'' @ in_Type i @ ''`): '' @ in_Constraints i
     @ '' -- Source: '' @ in_Source i @ nl"

definition output_line :: "OutputSpec \<Rightarrow> string" where
  "output_line out =
     ''- **'' @ out_Name out @ ''** (`'' @ out_Type out @ ''`): '' @ out_Constraints out
     @ '' -- Dest: '' @ out_Destination out @ nl"

definition error_case_line :: "ErrorSpec \<Rightarrow> string" where
  "error_case_line ec =
     ''- **'' @ Condition ec @ ''**: '' @ Behavior ec @ '' -> '' @ Output ec @ nl"

definition ComposeDescription :: "TaskNode \<Rightarrow> string" where
  "ComposeDescription task =
     Goal task
     @ (if length (Inputs task) > 0
        then nl @ nl @ ''## Inputs'' @ nl @ concat (map input_line (Inputs task)) else [])
     @ (if length (Outputs task) > 0
        then nl @ ''## Outputs'' @ nl @ concat (map output_line (Outputs task)) else [])
     @ (let constraints = parseStringArrayOrNA (Constraints task) in
        if slice_len constraints > 0
        then nl @ ''## Constraints'' @ nl
             @ concat (map (\<lambda>c. ''- '' @ c @ nl) (slice_elems constraints))
        else [])
     @ (if length (NonGoals task) > 0
        then nl @ ''## Non-Goals'' @ nl @ concat (map (\<lambda>ng. ''- '' @ ng @ nl) (NonGoals task))
        else [])
     @ (if length (ErrorCases task) > 0
        then nl @ ''## Error Cases'' @ nl @ concat (map error_case_line (ErrorCases task))
        else [])"

fun acceptance_lines :: "string list \<Rightarrow> string" where
  "acceptance_lines [] = []"
| "acceptance_lines (c # cs) = nl @ ''- '' @ c @ acceptance_lines cs"

definition FormatAcceptance :: "string list \<Rightarrow> string" where
  "FormatAcceptance criteria =
     (case criteria of [] \<Rightarrow> [] | c # cs \<Rightarrow> ''- '' @ c @ acceptance_lines cs)"

text \<open>
  The metadata envelope. \<open>json.Marshal\<close> belongs to the Go library; the model takes it
  as the parameter \<open>marshal\<close>, which returns the text or \<open>Inl\<close> with an error.
\<close>

definition parseEffectsOrNA :: "effects_raw option \<Rightarrow> string" where
  "parseEffectsOrNA raw =
     (case raw of
        None \<Rightarrow> []
      | Some (EString s) \<Rightarrow> s
      | Some (EArray effects) \<Rightarrow>
          Join (map (\<lambda>e. eff_Type e @ '': '' @ eff_Target e) effects) ''; ''
      | Some EOther \<Rightarrow> [])"

record templateData =
  td_Version :: string
  td_TaskID :: string
  td_FilesScope :: "string list"
  td_Effects :: string
  td_Inputs :: "InputSpec list"
  td_Outputs :: "OutputSpec list"

definition BuildTemplateMetadata :: "(templateData \<Rightarrow> string + string) \<Rightarrow> TaskNode \<Rightarrow> string + string" where
  "BuildTemplateMetadata marshal task =
     (let filesScope = (case parseStringArrayOrNA (FilesScope task) of None \<Rightarrow> [] | Some fs \<Rightarrow> fs);
          effects = parseEffectsOrNA (Effects task);
          meta = \<lparr>td_Version = ''0.2.0'', td_TaskID = TaskID task, td_FilesScope = filesScope,
                  td_Effects = effects, td_Inputs = Inputs task, td_Outputs = Outputs task\<rparr>
      in case marshal meta of
           Inl err \<Rightarrow> Inl (''marshaling template metadata: '' @ err)
         | Inr data \<Rightarrow> Inr data)"

section \<open>Command builder\<close>

record Creator =
  DryRun :: bool
  EpicTitle :: string
  Filename :: string

record BdCommand =
  Args :: "string list"
  cmd_TaskID :: string
  cmd_Type :: string
  DepTaskID :: string
  DepOnID :: string

definition buildTaskCreateArgs :: "Creator \<Rightarrow> TaskNode \<Rightarrow> string \<Rightarrow> string list" where
  "buildTaskCreateArgs c task parentID =
     (let args = [''create'', ''--title'', truncate_str (TaskName task) 500, ''--type'', ''task'',
                  ''--description'', ComposeDescription task];
          acceptance = FormatAcceptance (Acceptance task);
          args = (if acceptance \<noteq> [] then args @ [''--acceptance'', acceptance] else args);
          args = args @ [''--priority'', itoa (MapPriority (Priority task))];
          est = MapEstimate (Estimate task);
          args = (if est > 0 then args @ [''--estimate'', itoa est] else args);
          args = (if Notes task \<noteq> [] then args @ [''--notes'', Notes task] else args);
          args = (if parentID \<noteq> [] then args @ [''--parent'', parentID] else args)
      in args @ [''--labels'', ''taskval-managed'', ''--silent''])"

definition resolveEpicTitle :: "Creator \<Rightarrow> TaskGraph \<Rightarrow> string" where
  "resolveEpicTitle c graph =
     (if EpicTitle c \<noteq> [] then EpicTitle c
      else case slice_elems (Milestones graph) of
             m # ms \<Rightarrow> ''Task Graph: '' @ Name m
           | [] \<Rightarrow>
               (if Filename c \<noteq> [] \<and> Filename c \<noteq> ''-''
                then ''Task Graph: '' @ Filename c
                else ''Task Graph: (stdin)''))"

fun priority_loop :: "int \<Rightarrow> TaskNode list \<Rightarrow> int" where
  "priority_loop best [] = best"
| "priority_loop best (t # ts) =
     (let p = MapPriority (Priority t) in priority_loop (if p < best then p else best) ts)"

definition resolveGraphPriority :: "Creator \<Rightarrow> TaskGraph \<Rightarrow> int" where
  "resolveGraphPriority c graph = priority_loop 2 (Tasks graph)"

definition epic_command :: "Creator \<Rightarrow> TaskGraph \<Rightarrow> BdCommand" where
  "epic_command c graph =
     (let epicTitle = resolveEpicTitle c graph;
          epicPriority = resolveGraphPriority c graph
      in \<lparr>Args = [''create'', ''--title'', epicTitle, ''--type'', ''epic'',
                  ''--priority'', itoa epicPriority, ''--labels'', ''taskval-managed'',
                  ''--silent''],
          cmd_TaskID = [], cmd_Type = ''create-epic'', DepTaskID = [], DepOnID = []\<rparr>)"

section \<open>Go maps\<close>

text \<open>
  A Go map is an association list with distinct keys: \<open>map_of\<close> reads it,
  \<open>AList.update\<close> assigns to a key, and reading a missing key gives the zero value
  of the element type, passed to \<open>map_get\<close>. The order of the list is not the order
  in which Go iterates over the map: where the program ranges over a map, the model
  takes the order from a parameter (see \<open>range_map\<close>).
\<close>

definition map_get :: "'v \<Rightarrow> (string \<times> 'v) list \<Rightarrow> string \<Rightarrow> 'v" where
  "map_get zero m k = (case map_of m k of None \<Rightarrow> zero | Some v \<Rightarrow> v)"

definition range_map :: "(string list \<Rightarrow> string list) \<Rightarrow> (string \<times> 'v) list \<Rightarrow> (string \<times> 'v) list" where
  "range_map order m =
     List.map_filter (\<lambda>k. map_option (Pair k) (map_of m k)) (order (map fst m))"

section \<open>Topological order\<close>

fun index_tasks :: "nat \<Rightarrow> TaskNode list \<Rightarrow> (string \<times> nat) list \<Rightarrow> (string \<times> nat) list" where
  "index_tasks i [] taskIndex = taskIndex"
| "index_tasks i (t # ts) taskIndex =
     index_tasks (Suc i) ts (AList.update (TaskID t) i taskIndex)"

fun init_degrees ::
  "TaskNode list \<Rightarrow> (string \<times> string list) list \<times> (string \<times> int) list
     \<Rightarrow> (string \<times> string list) list \<times> (string \<times> int) list" where
  "init_degrees [] (adj, inDegree) = (adj, inDegree)"
| "init_degrees (t # ts) (adj, inDegree) =
     init_degrees ts (AList.update (TaskID t) [] adj, AList.update (TaskID t) 0 inDegree)"

text \<open>The inner loop over the dependencies of the task \<open>tid\<close>.\<close>

fun add_edges_of ::
  "string \<Rightarrow> (string \<times> nat) list \<Rightarrow> string list
     \<Rightarrow> (string \<times> string list) list \<times> (string \<times> int) list
     \<Rightarrow> (string \<times> string list) list \<times> (string \<times> int) list" where
  "add_edges_of tid taskIndex [] (adj, inDegree) = (adj, inDegree)"
| "add_edges_of tid taskIndex (dep # deps) (adj, inDegree) =
     (if map_of taskIndex dep = None then add_edges_of tid taskIndex deps (adj, inDegree)
      else add_edges_of tid taskIndex deps
             (AList.update dep (map_get [] adj dep @ [tid]) adj,
              AList.update tid (map_get 0 inDegree tid + 1) inDegree))"

fun add_edges ::
  "TaskNode list \<Rightarrow> (string \<times> nat) list
     \<Rightarrow> (string \<times> string list) list \<times> (string \<times> int) list
     \<Rightarrow> (string \<times> string list) list \<times> (string \<times> int) list" where
  "add_edges [] taskIndex graph_maps = graph_maps"
| "add_edges (t # ts) taskIndex graph_maps =
     (case ParseDependsOn t of
        Inl err \<Rightarrow> add_edges ts taskIndex graph_maps
      | Inr (deps, na) \<Rightarrow>
          add_edges ts taskIndex
            (add_edges_of (TaskID t) taskIndex (slice_elems deps) graph_maps))"

fun seed_queue :: "TaskNode list \<Rightarrow> (string \<times> int) list \<Rightarrow> string list" where
  "seed_queue [] inDegree = []"
| "seed_queue (t # ts) inDegree =
     (if map_get 0 inDegree (TaskID t) = 0 then TaskID t # seed_queue ts inDegree
      else seed_queue ts inDegree)"

text \<open>
  The inner loop of Kahn's algorithm, over the neighbours of the node taken from the
  queue: each in-degree goes down by one, and a node whose in-degree reaches zero
  joins the queue.
\<close>

fun relax ::
  "string list \<Rightarrow> (string \<times> int) list \<times> string list \<Rightarrow> (string \<times> int) list \<times> string list" where
  "relax [] (inDegree, queue) = (inDegree, queue)"
| "relax (neighbor # rest) (inDegree, queue) =
     (let inDegree' = AList.update neighbor (map_get 0 inDegree neighbor - 1) inDegree
      in relax rest
           (inDegree',
            if map_get 0 inDegree' neighbor = 0 then queue @ [neighbor] else queue))"

text \<open>
  The outer loop. \<open>graph.Tasks[idx]\<close> panics when the index is out of range; the
  loop then gives \<open>None\<close>.
\<close>

function topo_loop ::
  "TaskNode list \<Rightarrow> (string \<times> nat) list \<Rightarrow> (string \<times> string list) list
     \<Rightarrow> string list \<times> (string \<times> int) list \<times> TaskNode list \<Rightarrow> TaskNode list option" where
  "topo_loop tasks taskIndex adj (queue, inDegree, ordered) =
     (case queue of
        [] \<Rightarrow> Some ordered
      | node # rest \<Rightarrow>
          (let idx = map_get 0 taskIndex node in
           if idx < length tasks then
             (case relax (map_get [] adj node) (inDegree, rest) of
                (inDegree', queue') \<Rightarrow>
                  topo_loop tasks taskIndex adj (queue', inDegree', ordered @ [tasks ! idx]))
           else None))"
  by pat_completeness auto
termination
proof (relation "measure (\<lambda>(tasks, taskIndex, adj, queue, inDegree, ordered).
          length queue + card {n \<in> set (concat (map snd adj)). 0 < map_get 0 inDegree n})")
  show "wf (measure (\<lambda>(tasks :: TaskNode list, taskIndex :: (string \<times> nat) list,
          adj :: (string \<times> string list) list, queue :: string list,
          inDegree :: (string \<times> int) list, ordered :: TaskNode list).
          length queue + card {n \<in> set (concat (map snd adj)). 0 < map_get 0 inDegree n}))"
    by simp
next
  fix tasks :: "TaskNode list" and taskIndex :: "(string \<times> nat) list"
    and adj :: "(string \<times> string list) list" and queue rest queue' :: "string list"
    and inDegree inDegree' :: "(string \<times> int) list" and ordered :: "TaskNode list"
    and node :: string and idx :: nat
  assume q: "queue = node # rest"
    and r: "(inDegree', queue') = relax (map_get [] adj node) (inDegree, rest)"
  define N where "N = set (concat (map snd adj))"
  define pos where "pos = (\<lambda>d :: (string \<times> int) list. {n \<in> N. (0::int) < map_get 0 d n})"
  have fin: "finite (pos d)" for d
    by (simp add: pos_def N_def)
  have get_upd: "map_get 0 (AList.update k v d) x = (if x = k then v else map_get 0 d x)"
    for k x :: string and v :: int and d
    by (simp add: map_get_def update_conv')
  have step: "length q' + card (pos d') \<le> length q + card (pos d)"
    if "set ns \<subseteq> N" and "relax ns (d, q) = (d', q')" for ns d q d' q'
    using that
  proof (induction ns arbitrary: d q)
    case Nil
    then show ?case by simp
  next
    case (Cons n ns)
    define d1 where "d1 = AList.update n (map_get 0 d n - 1) d"
    define q1 where "q1 = (if map_get 0 d1 n = 0 then q @ [n] else q)"
    from Cons.prems have rest: "relax ns (d1, q1) = (d', q')" and sub: "set ns \<subseteq> N" and nN: "n \<in> N"
      by (simp_all add: d1_def q1_def Let_def)
    have le1: "length q1 + card (pos d1) \<le> length q + card (pos d)"
    proof (cases "map_get 0 d1 n = 0")
      case True
      then have one: "map_get 0 d n = 1"
        by (simp add: d1_def get_upd)
      have "pos d1 = pos d - {n}"
        using True one by (auto simp: pos_def d1_def get_upd)
      moreover have "n \<in> pos d"
        using one nN by (simp add: pos_def)
      ultimately have "card (pos d1) + 1 = card (pos d)"
        using fin [of d] card_Suc_Diff1 [of "pos d" n] by simp
      with True show ?thesis
        by (simp add: q1_def)
    next
      case False
      have "pos d1 \<subseteq> pos d"
        by (auto simp: pos_def d1_def get_upd split: if_splits)
      then have "card (pos d1) \<le> card (pos d)"
        using fin by (simp add: card_mono)
      with False show ?thesis
        by (simp add: q1_def)
    qed
    from Cons.IH [OF sub rest] le1 show ?case
      by simp
  qed
  have "set (map_get [] adj node) \<subseteq> N"
  proof (cases "map_of adj node")
    case None
    then show ?thesis by (simp add: map_get_def)
  next
    case (Some ns)
    then have "(node, ns) \<in> set adj"
      by (rule map_of_SomeD)
    then have "set ns \<subseteq> N"
      by (force simp: N_def)
    with Some show ?thesis by (simp add: map_get_def)
  qed
  from step [OF this r [symmetric]] q
  show "((tasks, taskIndex, adj, queue', inDegree', ordered @ [tasks ! idx]),
         (tasks, taskIndex, adj, queue, inDegree, ordered))
        \<in> measure (\<lambda>(tasks, taskIndex, adj, queue, inDegree, ordered).
          length queue + card {n \<in> set (concat (map snd adj)). 0 < map_get 0 inDegree n})"
    by (simp add: pos_def N_def)
qed

definition topologicalSort :: "TaskGraph \<Rightarrow> TaskNode list option" where
  "topologicalSort graph =
     (let tasks = Tasks graph;
          taskIndex = index_tasks 0 tasks [];
          (adj, inDegree) = add_edges tasks taskIndex (init_degrees tasks ([], []));
          queue = seed_queue tasks inDegree
      in topo_loop tasks taskIndex adj (queue, inDegree, []))"

section \<open>Building the commands of a graph\<close>

text \<open>
  \<open>BuildGraphCommands\<close> returns the commands, or the error of the metadata step;
  a panic of the sort is the third outcome.
\<close>

datatype build_error = Panic | Failure string

definition create_task_cmd :: "Creator \<Rightarrow> string \<Rightarrow> TaskNode \<Rightarrow> BdCommand" where
  "create_task_cmd c parentID task =
     \<lparr>Args = buildTaskCreateArgs c task parentID, cmd_TaskID = TaskID task,
      cmd_Type = ''create-task'', DepTaskID = [], DepOnID = []\<rparr>"

definition dep_add_cmd :: "TaskNode \<Rightarrow> string \<Rightarrow> BdCommand" where
  "dep_add_cmd task dep =
     \<lparr>Args = [''dep'', ''add'', ''<'' @ TaskID task @ ''-id>'', ''<'' @ dep @ ''-id>''],
      cmd_TaskID = [], cmd_Type = ''dep-add'', DepTaskID = TaskID task, DepOnID = dep\<rparr>"

fun dep_cmds :: "TaskNode list \<Rightarrow> BdCommand list" where
  "dep_cmds [] = []"
| "dep_cmds (task # rest) =
     (case ParseDependsOn task of
        Inl err \<Rightarrow> dep_cmds rest
      | Inr (deps, na) \<Rightarrow> map (dep_add_cmd task) (slice_elems deps) @ dep_cmds rest)"

definition update_design_cmd :: "TaskNode \<Rightarrow> string \<Rightarrow> BdCommand" where
  "update_design_cmd task designJSON =
     \<lparr>Args = [''update'', ''<'' @ TaskID task @ ''-id>'', ''--design'', designJSON],
      cmd_TaskID = TaskID task, cmd_Type = ''update-design'', DepTaskID = [], DepOnID = []\<rparr>"

fun update_cmds :: "(templateData \<Rightarrow> string + string) \<Rightarrow> TaskNode list \<Rightarrow> string + BdCommand list" where
  "update_cmds marshal [] = Inr []"
| "update_cmds marshal (task # rest) =
     (case BuildTemplateMetadata marshal task of
        Inl err \<Rightarrow>
          Inl (''building template metadata for '' @ sq @ TaskID task @ sq @ '': '' @ err)
      | Inr designJSON \<Rightarrow>
          (case update_cmds marshal rest of
             Inl err \<Rightarrow> Inl err
           | Inr cmds \<Rightarrow> Inr (update_design_cmd task designJSON # cmds)))"

definition BuildGraphCommands ::
  "Creator \<Rightarrow> (templateData \<Rightarrow> string + string) \<Rightarrow> TaskGraph \<Rightarrow> build_error + BdCommand list" where
  "BuildGraphCommands c marshal graph =
     (case topologicalSort graph of
        None \<Rightarrow> Inl Panic
      | Some ordered \<Rightarrow>
          (case update_cmds marshal ordered of
             Inl err \<Rightarrow> Inl (Failure err)
           | Inr updates \<Rightarrow>
               Inr (epic_command c graph # map (create_task_cmd c ''<epic-id>'') ordered
                    @ dep_cmds ordered @ updates)))"

definition BuildSingleTaskCommands ::
  "Creator \<Rightarrow> (templateData \<Rightarrow> string + string) \<Rightarrow> TaskNode \<Rightarrow> build_error + BdCommand list" where
  "BuildSingleTaskCommands c marshal task =
     (case BuildTemplateMetadata marshal task of
        Inl err \<Rightarrow>
          Inl (Failure (''building template metadata for '' @ sq @ TaskID task @ sq @ '': '' @ err))
      | Inr designJSON \<Rightarrow>
          Inr [create_task_cmd c [] task, update_design_cmd task designJSON])"

text \<open>
  How the tracker's command line reads the arguments that follow the subcommand: every
  flag takes the next argument as its value, except \<open>--silent\<close>, which takes none.
  \<open>flag_value f args\<close> is the value given to the flag \<open>f\<close>, if the flag is there.
\<close>

fun flag_value :: "string \<Rightarrow> string list \<Rightarrow> string option" where
  "flag_value f [] = None"
| "flag_value f [a] = None"
| "flag_value f (a # v # rest) =
     (if a = ''--silent'' then flag_value f (v # rest)
      else if a = f then Some v
      else flag_value f rest)"

text \<open>
  For stating the order of the commands: the entries of the \<open>depends_on\<close> list of a
  task (none when the field is absent, a marker, or does not decode), the relation
  between the identifier of a task and each of its entries, and the positions of the
  create command of a task in a command list.
\<close>

definition dependencies :: "TaskNode \<Rightarrow> string list" where
  "dependencies t =
     (case ParseDependsOn t of Inl err \<Rightarrow> [] | Inr (deps, na) \<Rightarrow> slice_elems deps)"

definition depends_on :: "TaskGraph \<Rightarrow> (string \<times> string) set" where
  "depends_on graph =
     set (concat (map (\<lambda>t. map (\<lambda>dep. (TaskID t, dep)) (dependencies t)) (Tasks graph)))"

definition creates_at :: "BdCommand list \<Rightarrow> nat \<Rightarrow> string \<Rightarrow> bool" where
  "creates_at cmds i tid =
     (i < length cmds \<and> cmd_Type (cmds ! i) = ''create-task'' \<and> cmd_TaskID (cmds ! i) = tid)"

text \<open>
  For the proofs about Kahn's algorithm, in the sort and in the cycle check: the entries
  that count for the identifier \<open>x\<close> (those of all the tasks named \<open>x\<close> that are
  keys of the index), and the invariant of the outer loop. With \<open>done\<close> the
  identifiers taken from the queue so far: no identifier occurs twice among them and
  the queue; the in-degree of a node counts its entries that are not yet taken; a node
  is taken or queued as soon as its in-degree is zero, and only then is it queued; and
  every node taken comes after all its entries. \<open>free_nodes\<close> are the nodes that can
  be taken at all: those whose entries can all be taken.
\<close>

definition known_entries :: "(string \<times> nat) list \<Rightarrow> TaskNode list \<Rightarrow> string \<Rightarrow> string list" where
  "known_entries taskIndex ts x =
     concat (map (\<lambda>t. filter (\<lambda>dep. map_of taskIndex dep \<noteq> None) (dependencies t))
               (filter (\<lambda>t. TaskID t = x) ts))"

definition kahn_ids_inv ::
  "(string \<Rightarrow> string list) \<Rightarrow> string set \<Rightarrow> string list \<Rightarrow> (string \<times> int) list \<Rightarrow> string list \<Rightarrow> bool" where
  "kahn_ids_inv entries ids q d done =
     (distinct (done @ q)
      \<and> set q \<subseteq> ids
      \<and> set done \<subseteq> ids
      \<and> (\<forall>x. map_get 0 d x = int (length (filter (\<lambda>y. y \<notin> set done) (entries x))))
      \<and> (\<forall>x\<in>ids. map_get 0 d x = 0 \<longrightarrow> x \<in> set done \<union> set q)
      \<and> (\<forall>x\<in>set q. map_get 0 d x = 0)
      \<and> (\<forall>j<length done. set (entries (done ! j)) \<subseteq> set (take j done)))"

inductive_set free_nodes :: "(string \<Rightarrow> string list) \<Rightarrow> string set \<Rightarrow> string set"
  for entries :: "string \<Rightarrow> string list" and ids :: "string set" where
  "x \<in> ids \<Longrightarrow> (\<And>y. y \<in> set (entries x) \<Longrightarrow> y \<in> free_nodes entries ids)
     \<Longrightarrow> x \<in> free_nodes entries ids"

section \<open>Command executor\<close>

record DepLink =
  TaskBdID :: string
  DepBdID :: string

record CreationResult =
  EpicID :: string
  res_EpicTitle :: string
  res_TaskIDs :: "(string \<times> string) list"
  TaskTitles :: "(string \<times> string) list"
  Commands :: "string list"
  Created :: nat
  Deps :: nat
  DepsDetail :: "DepLink list"

text \<open>
  The tracker is a subprocess. One run of it either exits with status zero, having
  written \<open>stdout\<close>, or fails: \<open>Exit_fail stderr err\<close> holds what it wrote to its
  standard error and the text of the error that \<open>cmd.Run\<close> returns. What the tracker
  answers may depend on everything it was asked before, so the tracker is a function
  of the earlier argument lists and of the present one. The list of the argument
  lists passed so far is the record of which subprocesses have run.
\<close>

datatype bd_outcome = Exit_ok string | Exit_fail string string

type_synonym tracker = "string list list \<Rightarrow> string list \<Rightarrow> bd_outcome"

definition runBdCommand :: "tracker \<Rightarrow> string list list \<Rightarrow> string list \<Rightarrow> (string + string) \<times> string list list" where
  "runBdCommand bd invoked args =
     (case bd invoked args of
        Exit_fail stderr err \<Rightarrow>
          (let errMsg = TrimSpace stderr;
               errMsg = (if errMsg = [] then err else errMsg)
           in (Inl errMsg, invoked @ [args]))
      | Exit_ok stdout \<Rightarrow> (Inr (TrimSpace stdout), invoked @ [args]))"

text \<open>
  \<open>replaceIDs\<close> ranges over the substitution table once for every argument. Go
  fixes no order for that; \<open>order i\<close> is the order taken at the argument \<open>i\<close>.
\<close>

fun replace_arg :: "string \<Rightarrow> (string \<times> string) list \<Rightarrow> string \<Rightarrow> string" where
  "replace_arg a [] replaced = replaced"
| "replace_arg a ((placeholder, actual) # rest) replaced =
     replace_arg a rest
       (if Contains a placeholder then ReplaceAll replaced placeholder actual else replaced)"

fun replace_args ::
  "(nat \<Rightarrow> string list \<Rightarrow> string list) \<Rightarrow> nat \<Rightarrow> string list \<Rightarrow> (string \<times> string) list \<Rightarrow> string list" where
  "replace_args order i [] idMap = []"
| "replace_args order i (a # rest) idMap =
     replace_arg a (range_map (order i) idMap) a # replace_args order (Suc i) rest idMap"

definition replaceIDs ::
  "(nat \<Rightarrow> string list \<Rightarrow> string list) \<Rightarrow> string list \<Rightarrow> (string \<times> string) list \<Rightarrow> string list" where
  "replaceIDs order args idMap = replace_args order 0 args idMap"

text \<open>The title is the argument after the first \<open>--title\<close> that has a successor.\<close>

fun find_title :: "string list \<Rightarrow> string option" where
  "find_title [] = None"
| "find_title [a] = None"
| "find_title (a # b # rest) = (if a = ''--title'' then Some b else find_title (b # rest))"

text \<open>The \<open>switch\<close> on the type of a command that has succeeded.\<close>

definition record_command ::
  "BdCommand \<Rightarrow> string \<Rightarrow> CreationResult \<times> (string \<times> string) list
     \<Rightarrow> CreationResult \<times> (string \<times> string) list" where
  "record_command cmd bdID st =
     (case st of (result, idMap) \<Rightarrow>
      if cmd_Type cmd = ''create-epic'' then
        (let result = result\<lparr>EpicID := bdID\<rparr>;
             result = (case find_title (Args cmd) of
                         Some title \<Rightarrow> result\<lparr>res_EpicTitle := title\<rparr>
                       | None \<Rightarrow> result)
         in (result\<lparr>Created := Created result + 1\<rparr>, AList.update ''<epic-id>'' bdID idMap))
      else if cmd_Type cmd = ''create-task'' then
        (let result = result\<lparr>res_TaskIDs := AList.update (cmd_TaskID cmd) bdID (res_TaskIDs result)\<rparr>;
             result = (case find_title (Args cmd) of
                         Some title \<Rightarrow>
                           result\<lparr>TaskTitles := AList.update (cmd_TaskID cmd) title (TaskTitles result)\<rparr>
                       | None \<Rightarrow> result)
         in (result\<lparr>Created := Created result + 1\<rparr>,
             AList.update (''<'' @ cmd_TaskID cmd @ ''-id>'') bdID idMap))
      else if cmd_Type cmd = ''dep-add'' then
        (result\<lparr>Deps := Deps result + 1,
                DepsDetail := DepsDetail result
                  @ [\<lparr>TaskBdID = map_get [] idMap (''<'' @ DepTaskID cmd @ ''-id>''),
                      DepBdID = map_get [] idMap (''<'' @ DepOnID cmd @ ''-id>'')\<rparr>]\<rparr>,
         idMap)
      else (result, idMap))"

definition failure_text :: "string list \<Rightarrow> string \<Rightarrow> nat \<Rightarrow> string" where
  "failure_text args err created =
     ''bd command failed: bd '' @ Join args '' '' @ nl @ ''  Error: '' @ err @ nl @ ''  ''
     @ itoa (int created) @ '' issues created before failure''"

text \<open>
  One turn of the loop of \<open>ExecuteCommands\<close>. The state is the result so far, the
  substitution table and the subprocesses run so far. A failing command gives \<open>Inl\<close>
  with the text of the error and the subprocesses run; otherwise the new state.
\<close>

definition exec_step ::
  "tracker \<Rightarrow> (nat \<Rightarrow> string list \<Rightarrow> string list) \<Rightarrow> BdCommand
     \<Rightarrow> CreationResult \<times> (string \<times> string) list \<times> string list list
     \<Rightarrow> (string \<times> string list list) + (CreationResult \<times> (string \<times> string) list \<times> string list list)" where
  "exec_step bd order cmd st =
     (let result = fst st; idMap = fst (snd st); invoked = snd (snd st);
          args = replaceIDs order (Args cmd) idMap
      in case runBdCommand bd invoked args of
           (Inl err, invoked') \<Rightarrow> Inl (failure_text args err (Created result), invoked')
         | (Inr bdID, invoked') \<Rightarrow>
             (let recorded = record_command cmd bdID (result, idMap);
                  result' = fst recorded; idMap' = snd recorded
              in Inr (result'\<lparr>Commands := Commands result' @ [''bd '' @ Join args '' '']\<rparr>,
                      idMap', invoked')))"

text \<open>
  The loop from the command number \<open>n\<close> on. It returns the result, the error if a
  command failed, and the subprocesses that have run.
\<close>

fun exec_loop ::
  "tracker \<Rightarrow> (nat \<Rightarrow> nat \<Rightarrow> string list \<Rightarrow> string list) \<Rightarrow> nat \<Rightarrow> BdCommand list
     \<Rightarrow> CreationResult \<times> (string \<times> string) list \<times> string list list
     \<Rightarrow> CreationResult \<times> string option \<times> string list list" where
  "exec_loop bd order n [] st = (fst st, None, snd (snd st))"
| "exec_loop bd order n (cmd # cmds) st =
     (case exec_step bd (order n) cmd st of
        Inl (text, invoked') \<Rightarrow> (fst st, Some text, invoked')
      | Inr st' \<Rightarrow> exec_loop bd order (Suc n) cmds st')"

definition empty_result :: CreationResult where
  "empty_result =
     \<lparr>EpicID = [], res_EpicTitle = [], res_TaskIDs = [], TaskTitles = [], Commands = [],
      Created = 0, Deps = 0, DepsDetail = []\<rparr>"

definition ExecuteCommands ::
  "tracker \<Rightarrow> (nat \<Rightarrow> nat \<Rightarrow> string list \<Rightarrow> string list) \<Rightarrow> BdCommand list
     \<Rightarrow> CreationResult \<times> string option \<times> string list list" where
  "ExecuteCommands bd order cmds = exec_loop bd order 0 cmds (empty_result, [], [])"

text \<open>
  For stating what a run has done: the state after the given commands when each of
  them has succeeded, and the key of the substitution table that a command assigns
  when it succeeds.
\<close>

fun run_commands ::
  "tracker \<Rightarrow> (nat \<Rightarrow> nat \<Rightarrow> string list \<Rightarrow> string list) \<Rightarrow> nat \<Rightarrow> BdCommand list
     \<Rightarrow> CreationResult \<times> (string \<times> string) list \<times> string list list
     \<Rightarrow> (CreationResult \<times> (string \<times> string) list \<times> string list list) option" where
  "run_commands bd order n [] st = Some st"
| "run_commands bd order n (cmd # cmds) st =
     (case exec_step bd (order n) cmd st of
        Inl failure \<Rightarrow> None
      | Inr st' \<Rightarrow> run_commands bd order (Suc n) cmds st')"

definition assigned_key :: "BdCommand \<Rightarrow> string option" where
  "assigned_key cmd =
     (if cmd_Type cmd = ''create-epic'' then Some ''<epic-id>''
      else if cmd_Type cmd = ''create-task'' then Some (''<'' @ cmd_TaskID cmd @ ''-id>'')
      else None)"

definition is_create :: "BdCommand \<Rightarrow> bool" where
  "is_create cmd = (cmd_Type cmd = ''create-epic'' \<or> cmd_Type cmd = ''create-task'')"

section \<open>Validation findings\<close>

datatype Severity = SeverityError | SeverityWarning | SeverityInfo

record ValidationError =
  Rule :: string
  Severity :: Severity
  Path :: string
  Message :: string
  Suggestion :: string
  Context :: string

record ValidationStats =
  TotalTasks :: nat
  ErrorCount :: nat
  WarningCount :: nat
  InfoCount :: nat

record ValidationResult =
  Valid :: bool
  Errors :: "ValidationError list"
  Stats :: ValidationStats
  Graph :: "TaskGraph option"

definition AddError :: "ValidationResult \<Rightarrow> ValidationError \<Rightarrow> ValidationResult" where
  "AddError vr ve =
     (let vr = vr\<lparr>Errors := Errors vr @ [ve]\<rparr> in
      case Severity ve of
        SeverityError \<Rightarrow>
          vr\<lparr>Stats := (Stats vr)\<lparr>ErrorCount := ErrorCount (Stats vr) + 1\<rparr>, Valid := False\<rparr>
      | SeverityWarning \<Rightarrow>
          vr\<lparr>Stats := (Stats vr)\<lparr>WarningCount := WarningCount (Stats vr) + 1\<rparr>\<rparr>
      | SeverityInfo \<Rightarrow>
          vr\<lparr>Stats := (Stats vr)\<lparr>InfoCount := InfoCount (Stats vr) + 1\<rparr>\<rparr>)"

section \<open>Tier 1: schema findings\<close>

text \<open>
  The JSON Schema library is not part of the program. What the program reads of an
  evaluation is whether it is valid and the map from field paths to messages that
  \<open>GetDetailedErrors\<close> returns.
\<close>

record schema_eval =
  IsValid :: bool
  DetailedErrors :: "(string \<times> string) list"

definition generateSchemaSuggestion :: "string \<Rightarrow> string \<Rightarrow> string" where
  "generateSchemaSuggestion path msg =
     (let lowerMsg = ToLower msg in
      if Contains lowerMsg ''required'' then
        ''Add the missing required field at '' @ sq @ path @ sq
        @ ''. Check the spec'' @ sq @ ''s Quick Reference (Appendix A) for the expected format.''
      else if Contains lowerMsg ''pattern'' then
        (if Contains path ''task_id'' then
           ''task_id must be kebab-case (lowercase letters, numbers, hyphens). Example: '' @ sq
           @ ''my-task-name'' @ sq @ ''. Pattern: ^[a-z0-9]+(-[a-z0-9]+)*$''
         else ''The value at '' @ sq @ path @ sq
              @ '' does not match the required pattern. Check the schema for the expected format.'')
      else if Contains lowerMsg ''enum'' \<or> Contains lowerMsg ''const'' then
        ''The value at '' @ sq @ path @ sq
        @ '' must be one of the allowed values. Check the schema definition for valid options.''
      else if Contains lowerMsg ''maxlength'' \<or> Contains lowerMsg ''maximum'' then
        ''The value at '' @ sq @ path @ sq @ '' exceeds the maximum length. Shorten it.''
      else if Contains lowerMsg ''minlength'' \<or> Contains lowerMsg ''minimum'' then
        ''The value at '' @ sq @ path @ sq @ '' is too short or empty. Provide a meaningful value.''
      else if Contains lowerMsg ''minitems'' then
        ''The array at '' @ sq @ path @ sq
        @ '' must have at least one item. Add the required elements.''
      else if Contains lowerMsg ''additional'' then
        ''The field at '' @ sq @ path @ sq
        @ '' is not recognized. Remove it or check for typos. Valid fields are listed in the schema.''
      else if Contains lowerMsg ''type'' then
        ''The value at '' @ sq @ path @ sq
        @ '' has the wrong type. Check the schema for the expected type (string, array, object, etc.).''
      else if Contains lowerMsg ''oneof'' then
        ''The value at '' @ sq @ path @ sq
        @ '' must match exactly one of the allowed schemas. Check the spec for valid formats.''
      else [])"

definition schema_error :: "string \<times> string \<Rightarrow> ValidationError" where
  "schema_error entry =
     (case entry of (path, msg) \<Rightarrow>
      let path = (if path = [] then ''$'' else path);
          suggestion = generateSchemaSuggestion path msg
      in \<lparr>Rule = ''SCHEMA'', Severity = SeverityError, Path = path, Message = msg,
          Suggestion = suggestion, Context = []\<rparr>)"

text \<open>
  \<open>convertSchemaErrors\<close> ranges over the map of detailed errors, in the order
  \<open>order\<close> that the Go runtime takes for this loop.
\<close>

definition convertSchemaErrors ::
  "(string list \<Rightarrow> string list) \<Rightarrow> schema_eval \<Rightarrow> ValidationResult \<Rightarrow> ValidationResult" where
  "convertSchemaErrors order schemaResult result =
     foldl AddError result (map schema_error (range_map order (DetailedErrors schemaResult)))"

definition Schema_Validate ::
  "(string list \<Rightarrow> string list) \<Rightarrow> schema_eval \<Rightarrow> ValidationResult \<Rightarrow> ValidationResult" where
  "Schema_Validate order schemaResult result =
     (if \<not> IsValid schemaResult then convertSchemaErrors order schemaResult result else result)"

section \<open>Tier 2: semantic rules\<close>

subsection \<open>V2: unique task identifiers\<close>

definition duplicate_error :: "nat \<Rightarrow> TaskNode \<Rightarrow> nat \<Rightarrow> ValidationError" where
  "duplicate_error i t prev =
     \<lparr>Rule = ''V2'', Severity = SeverityError,
      Path = ''tasks['' @ itoa (int i) @ ''].task_id'',
      Message = ''Duplicate task_id '' @ sq @ TaskID t @ sq @ '' '' @ em_dash
                @ '' first occurrence at tasks['' @ itoa (int prev) @ ''].'',
      Suggestion = ''Every task_id must be globally unique within the project. Rename one of the duplicates.'',
      Context = TaskID t\<rparr>"

fun unique_loop ::
  "nat \<Rightarrow> TaskNode list \<Rightarrow> (string \<times> nat) list \<Rightarrow> ValidationResult \<Rightarrow> ValidationResult" where
  "unique_loop i [] seen result = result"
| "unique_loop i (t # ts) seen result =
     unique_loop (Suc i) ts (AList.update (TaskID t) i seen)
       (case map_of seen (TaskID t) of
          Some prev \<Rightarrow> AddError result (duplicate_error i t prev)
        | None \<Rightarrow> result)"

definition checkUniqueTaskIDs :: "TaskGraph \<Rightarrow> ValidationResult \<Rightarrow> ValidationResult" where
  "checkUniqueTaskIDs graph result = unique_loop 0 (Tasks graph) [] result"

subsection \<open>V4 and the self reference of V5\<close>

definition depends_on_path :: "nat \<Rightarrow> string" where
  "depends_on_path i = ''tasks['' @ itoa (int i) @ ''].depends_on''"

definition dangling_error :: "nat \<Rightarrow> TaskNode \<Rightarrow> string \<Rightarrow> ValidationError" where
  "dangling_error i t dep =
     \<lparr>Rule = ''V4'', Severity = SeverityError, Path = depends_on_path i,
      Message = ''Task '' @ sq @ TaskID t @ sq @ '' depends on '' @ sq @ dep @ sq
                @ '', but no task with that task_id exists in the graph.'',
      Suggestion = ''Either add a task with task_id '' @ sq @ dep @ sq
                   @ '' to the graph, or remove '' @ sq @ dep @ sq
                   @ '' from the depends_on list of task '' @ sq @ TaskID t @ sq @ ''.'',
      Context = dep\<rparr>"

definition self_reference_error :: "nat \<Rightarrow> TaskNode \<Rightarrow> string \<Rightarrow> ValidationError" where
  "self_reference_error i t dep =
     \<lparr>Rule = ''V5'', Severity = SeverityError, Path = depends_on_path i,
      Message = ''Task '' @ sq @ TaskID t @ sq @ '' depends on itself '' @ em_dash
                @ '' this creates a trivial cycle.'',
      Suggestion = ''Remove the self-reference from depends_on.'',
      Context = dep\<rparr>"

definition depends_on_decode_error :: "nat \<Rightarrow> string \<Rightarrow> ValidationError" where
  "depends_on_decode_error i err =
     \<lparr>Rule = ''V4'', Severity = SeverityError, Path = depends_on_path i, Message = err,
      Suggestion = ''depends_on must be an array of task_id strings or {'' @ dq @ ''status'' @ dq
                   @ '': '' @ dq @ ''N/A'' @ dq @ '', '' @ dq @ ''reason'' @ dq @ '': '' @ dq
                   @ ''...'' @ dq @ ''}.'',
      Context = []\<rparr>"

fun reference_loop ::
  "nat \<Rightarrow> TaskNode \<Rightarrow> (string \<times> nat) list \<Rightarrow> string list \<Rightarrow> ValidationResult \<Rightarrow> ValidationResult" where
  "reference_loop i t taskIndex [] result = result"
| "reference_loop i t taskIndex (dep # deps) result =
     (let result = (if map_of taskIndex dep = None then AddError result (dangling_error i t dep)
                    else result);
          result = (if dep = TaskID t then AddError result (self_reference_error i t dep)
                    else result)
      in reference_loop i t taskIndex deps result)"

fun references_loop ::
  "nat \<Rightarrow> TaskNode list \<Rightarrow> (string \<times> nat) list \<Rightarrow> ValidationResult \<Rightarrow> ValidationResult" where
  "references_loop i [] taskIndex result = result"
| "references_loop i (t # ts) taskIndex result =
     references_loop (Suc i) ts taskIndex
       (case ParseDependsOn t of
          Inl err \<Rightarrow> AddError result (depends_on_decode_error i err)
        | Inr (deps, na) \<Rightarrow> reference_loop i t taskIndex (slice_elems deps) result)"

definition checkDependencyReferences ::
  "TaskGraph \<Rightarrow> (string \<times> nat) list \<Rightarrow> ValidationResult \<Rightarrow> ValidationResult" where
  "checkDependencyReferences graph taskIndex result =
     references_loop 0 (Tasks graph) taskIndex result"

subsection \<open>V5: cycles\<close>

fun init_degrees_once ::
  "TaskNode list \<Rightarrow> (string \<times> string list) list \<times> (string \<times> int) list
     \<Rightarrow> (string \<times> string list) list \<times> (string \<times> int) list" where
  "init_degrees_once [] (adj, inDegree) = (adj, inDegree)"
| "init_degrees_once (t # ts) (adj, inDegree) =
     init_degrees_once ts
       (if map_of adj (TaskID t) = None then AList.update (TaskID t) [] adj else adj,
        if map_of inDegree (TaskID t) = None then AList.update (TaskID t) 0 inDegree
        else inDegree)"

function dag_loop ::
  "(string \<times> string list) list \<Rightarrow> string list \<times> (string \<times> int) list \<times> nat
     \<Rightarrow> (string \<times> int) list \<times> nat" where
  "dag_loop adj (queue, inDegree, visited) =
     (case queue of
        [] \<Rightarrow> (inDegree, visited)
      | node # rest \<Rightarrow>
          (case relax (map_get [] adj node) (inDegree, rest) of
             (inDegree', queue') \<Rightarrow> dag_loop adj (queue', inDegree', visited + 1)))"
  by pat_completeness auto
termination
proof (relation "measure (\<lambda>(adj, queue, inDegree, visited).
          length queue + card {n \<in> set (concat (map snd adj)). 0 < map_get 0 inDegree n})")
  show "wf (measure (\<lambda>(adj :: (string \<times> string list) list, queue :: string list,
          inDegree :: (string \<times> int) list, visited :: nat).
          length queue + card {n \<in> set (concat (map snd adj)). 0 < map_get 0 inDegree n}))"
    by simp
next
  fix adj :: "(string \<times> string list) list" and queue rest queue' :: "string list"
    and inDegree inDegree' :: "(string \<times> int) list" and visited :: nat and node :: string
  assume q: "queue = node # rest"
    and r: "(inDegree', queue') = relax (map_get [] adj node) (inDegree, rest)"
  define N where "N = set (concat (map snd adj))"
  define pos where "pos = (\<lambda>d :: (string \<times> int) list. {n \<in> N. (0::int) < map_get 0 d n})"
  have fin: "finite (pos d)" for d
    by (simp add: pos_def N_def)
  have get_upd: "map_get 0 (AList.update k v d) x = (if x = k then v else map_get 0 d x)"
    for k x :: string and v :: int and d
    by (simp add: map_get_def update_conv')
  have step: "length q' + card (pos d') \<le> length q + card (pos d)"
    if "set ns \<subseteq> N" and "relax ns (d, q) = (d', q')" for ns d q d' q'
    using that
  proof (induction ns arbitrary: d q)
    case Nil
    then show ?case by simp
  next
    case (Cons n ns)
    define d1 where "d1 = AList.update n (map_get 0 d n - 1) d"
    define q1 where "q1 = (if map_get 0 d1 n = 0 then q @ [n] else q)"
    from Cons.prems have rest: "relax ns (d1, q1) = (d', q')" and sub: "set ns \<subseteq> N" and nN: "n \<in> N"
      by (simp_all add: d1_def q1_def Let_def)
    have le1: "length q1 + card (pos d1) \<le> length q + card (pos d)"
    proof (cases "map_get 0 d1 n = 0")
      case True
      then have one: "map_get 0 d n = 1"
        by (simp add: d1_def get_upd)
      have "pos d1 = pos d - {n}"
        using True one by (auto simp: pos_def d1_def get_upd)
      moreover have "n \<in> pos d"
        using one nN by (simp add: pos_def)
      ultimately have "card (pos d1) + 1 = card (pos d)"
        using fin [of d] card_Suc_Diff1 [of "pos d" n] by simp
      with True show ?thesis
        by (simp add: q1_def)
    next
      case False
      have "pos d1 \<subseteq> pos d"
        by (auto simp: pos_def d1_def get_upd split: if_splits)
      then have "card (pos d1) \<le> card (pos d)"
        using fin by (simp add: card_mono)
      with False show ?thesis
        by (simp add: q1_def)
    qed
    from Cons.IH [OF sub rest] le1 show ?case
      by simp
  qed
  have "set (map_get [] adj node) \<subseteq> N"
  proof (cases "map_of adj node")
    case None
    then show ?thesis by (simp add: map_get_def)
  next
    case (Some ns)
    then have "(node, ns) \<in> set adj"
      by (rule map_of_SomeD)
    then have "set ns \<subseteq> N"
      by (force simp: N_def)
    with Some show ?thesis by (simp add: map_get_def)
  qed
  from step [OF this r [symmetric]] q
  show "((adj, queue', inDegree', visited + 1), (adj, queue, inDegree, visited))
        \<in> measure (\<lambda>(adj, queue, inDegree, visited).
          length queue + card {n \<in> set (concat (map snd adj)). 0 < map_get 0 inDegree n})"
    by (simp add: pos_def N_def)
qed

definition cycle_error :: "string list \<Rightarrow> ValidationError" where
  "cycle_error cycleMembers =
     \<lparr>Rule = ''V5'', Severity = SeverityError, Path = ''tasks'',
      Message = ''Dependency graph contains a cycle. '' @ itoa (int (length cycleMembers))
                @ '' task(s) are involved: ['' @ Join cycleMembers '', ''
                @ '']. A valid task graph must be a DAG (Directed Acyclic Graph).'',
      Suggestion = ''Review the depends_on fields of the listed tasks. Break the cycle by removing one dependency or decomposing a task into sub-tasks.'',
      Context = Join cycleMembers '', ''\<rparr>"

text \<open>
  The check ranges over the map \<open>inDegree\<close> twice: to fill the queue (\<open>order 1\<close>)
  and to list the members of a cycle (\<open>order 2\<close>).
\<close>

definition checkDAGAcyclicity ::
  "(nat \<Rightarrow> string list \<Rightarrow> string list) \<Rightarrow> TaskGraph \<Rightarrow> (string \<times> nat) list
     \<Rightarrow> ValidationResult \<Rightarrow> ValidationResult" where
  "checkDAGAcyclicity order graph taskIndex result =
     (case add_edges (Tasks graph) taskIndex (init_degrees_once (Tasks graph) ([], [])) of
        (adj, inDegree) \<Rightarrow>
          (let queue = map fst (filter (\<lambda>(k, deg). deg = 0) (range_map (order 1) inDegree)) in
           case dag_loop adj (queue, inDegree, 0) of
             (inDegree', visited) \<Rightarrow>
               if visited < length (Tasks graph) then
                 (let cycleMembers =
                        map fst (filter (\<lambda>(k, deg). deg > 0) (range_map (order 2) inDegree'))
                  in AddError result (cycle_error cycleMembers))
               else result))"

subsection \<open>Matching words\<close>

text \<open>
  The patterns of V6 and V7 have the form \<open>(?i)\b w \b\<close> for a literal \<open>w\<close> in
  lower case. A word character is an ASCII letter, digit or underscore; \<open>\b\<close> holds
  between two positions of which exactly one is a word character, the ends of the
  text counting as none. Under \<open>(?i)\<close> a letter of the pattern matches both of its
  ASCII cases, and \<open>s\<close> and \<open>k\<close> also match U+017F (bytes C5 BF) and U+212A (bytes
  E2 84 AA), which are not word characters. \<open>fold_char\<close> consumes one character of
  the text and tells whether it was a word character.
\<close>

definition is_word_byte :: "char \<Rightarrow> bool" where
  "is_word_byte c =
     (let n = (of_char c :: nat) in
      (48 \<le> n \<and> n \<le> 57) \<or> (65 \<le> n \<and> n \<le> 90) \<or> (97 \<le> n \<and> n \<le> 122) \<or> n = 95)"

definition fold_char :: "char \<Rightarrow> string \<Rightarrow> (string \<times> bool) option" where
  "fold_char p s =
     (case s of
        [] \<Rightarrow> None
      | c # cs \<Rightarrow>
          if lower_byte c = p then Some (cs, is_word_byte c)
          else if p = CHR ''s'' \<and> c = CHR 0xC5 \<and> take 1 cs = [CHR 0xBF] then Some (drop 1 cs, False)
          else if p = CHR ''k'' \<and> c = CHR 0xE2 \<and> take 2 cs = [CHR 0x84, CHR 0xAA]
          then Some (drop 2 cs, False)
          else None)"

fun match_literal :: "string \<Rightarrow> string \<Rightarrow> bool \<Rightarrow> (string \<times> bool) option" where
  "match_literal [] s last_word = Some (s, last_word)"
| "match_literal (p # ps) s last_word =
     (case fold_char p s of
        None \<Rightarrow> None
      | Some (rest, w) \<Rightarrow> match_literal ps rest w)"

definition starts_with_word :: "string \<Rightarrow> bool" where
  "starts_with_word s = (case s of [] \<Rightarrow> False | c # cs \<Rightarrow> is_word_byte c)"

definition match_here :: "string \<Rightarrow> bool \<Rightarrow> string \<Rightarrow> bool" where
  "match_here w prev_word s =
     (case match_literal w s prev_word of
        None \<Rightarrow> False
      | Some (rest, last_word) \<Rightarrow>
          prev_word \<noteq> starts_with_word s \<and> last_word \<noteq> starts_with_word rest)"

fun search_word :: "string \<Rightarrow> bool \<Rightarrow> string \<Rightarrow> bool" where
  "search_word w prev_word [] = match_here w prev_word []"
| "search_word w prev_word (c # cs) =
     (match_here w prev_word (c # cs) \<or> search_word w (is_word_byte c) cs)"

definition MatchWord :: "string \<Rightarrow> string \<Rightarrow> bool" where
  "MatchWord w s = search_word w False s"

subsection \<open>V6: goal quality\<close>

definition goalForbiddenWords :: "string list" where
  "goalForbiddenWords = [''try'', ''explore'', ''investigate'', ''look into'']"

definition goal_path :: "nat \<Rightarrow> string" where
  "goal_path i = ''tasks['' @ itoa (int i) @ ''].goal''"

definition forbidden_word_error :: "nat \<Rightarrow> TaskNode \<Rightarrow> string \<Rightarrow> ValidationError" where
  "forbidden_word_error i t w =
     \<lparr>Rule = ''V6'', Severity = SeverityError, Path = goal_path i,
      Message = ''Goal contains the forbidden word/phrase '' @ sq @ w @ sq
                @ ''. Goals must describe testable outcomes, not activities or explorations.'',
      Suggestion = ''Rewrite the goal as a concrete, testable outcome. Instead of '' @ sq @ w
                   @ '' ...'' @ sq @ '', describe what the system does when the task is complete. Example: ''
                   @ sq @ ''The function returns X when given Y.'' @ sq,
      Context = Goal t\<rparr>"

definition goal_activity_warning :: "nat \<Rightarrow> TaskNode \<Rightarrow> ValidationError" where
  "goal_activity_warning i t =
     \<lparr>Rule = ''V6'', Severity = SeverityWarning, Path = goal_path i,
      Message = ''Goal starts with '' @ sq @ ''To ...'' @ sq
                @ '' which suggests an activity rather than a testable outcome.'',
      Suggestion = ''Rewrite as a state-of-the-world assertion. Example: Instead of '' @ sq
                   @ ''To add search functionality'' @ sq @ '', write '' @ sq
                   @ ''The Search() function returns ranked results from Weaviate hybrid search.''
                   @ sq,
      Context = Goal t\<rparr>"

fun forbidden_loop :: "nat \<Rightarrow> TaskNode \<Rightarrow> string list \<Rightarrow> ValidationResult \<Rightarrow> ValidationResult" where
  "forbidden_loop i t [] result = result"
| "forbidden_loop i t (w # ws) result =
     forbidden_loop i t ws
       (if MatchWord w (Goal t) then AddError result (forbidden_word_error i t w) else result)"

fun goal_loop :: "nat \<Rightarrow> TaskNode list \<Rightarrow> ValidationResult \<Rightarrow> ValidationResult" where
  "goal_loop i [] result = result"
| "goal_loop i (t # ts) result =
     (let result = forbidden_loop i t goalForbiddenWords result;
          result = (if HasPrefix (TrimSpace (Goal t)) ''To ''
                    then AddError result (goal_activity_warning i t) else result)
      in goal_loop (Suc i) ts result)"

definition checkGoalQuality :: "TaskGraph \<Rightarrow> ValidationResult \<Rightarrow> ValidationResult" where
  "checkGoalQuality graph result = goal_loop 0 (Tasks graph) result"

subsection \<open>V7: acceptance quality\<close>

text \<open>
  Each vague pattern with the name under which it is reported. A pattern with an
  optional letter (\<open>works? correctly\<close>) is the list of its two literals.
\<close>

definition vaguePatterns :: "(string list \<times> string) list" where
  "vaguePatterns =
     [([''work correctly'', ''works correctly''], ''works correctly''),
      ([''is correct''], ''is correct''),
      ([''is good''], ''is good''),
      ([''look right'', ''looks right''], ''looks right''),
      ([''properly''], ''properly''),
      ([''as expected''], ''as expected''),
      ([''should work''], ''should work''),
      ([''is fine''], ''is fine'')]"

definition vague_warning :: "nat \<Rightarrow> nat \<Rightarrow> string \<Rightarrow> string \<Rightarrow> ValidationError" where
  "vague_warning i j criterion name =
     \<lparr>Rule = ''V7'', Severity = SeverityWarning,
      Path = ''tasks['' @ itoa (int i) @ ''].acceptance['' @ itoa (int j) @ '']'',
      Message = ''Acceptance criterion contains the vague phrase '' @ sq @ name @ sq
                @ ''. Criteria must be independently verifiable with concrete expected values.'',
      Suggestion = ''Replace with a specific assertion. Example: Instead of '' @ sq
                   @ ''it works correctly'' @ sq @ '', write '' @ sq @ ''Given input '' @ dq
                   @ ''test'' @ dq @ '', the function returns ['' @ dq @ ''result1'' @ dq @ '', ''
                   @ dq @ ''result2'' @ dq @ ''] with status 200.'' @ sq,
      Context = criterion\<rparr>"

fun vague_loop ::
  "nat \<Rightarrow> nat \<Rightarrow> string \<Rightarrow> (string list \<times> string) list \<Rightarrow> ValidationResult \<Rightarrow> ValidationResult" where
  "vague_loop i j criterion [] result = result"
| "vague_loop i j criterion ((alternatives, name) # rest) result =
     vague_loop i j criterion rest
       (if list_ex (\<lambda>w. MatchWord w criterion) alternatives
        then AddError result (vague_warning i j criterion name) else result)"

fun criteria_loop :: "nat \<Rightarrow> nat \<Rightarrow> string list \<Rightarrow> ValidationResult \<Rightarrow> ValidationResult" where
  "criteria_loop i j [] result = result"
| "criteria_loop i j (criterion # rest) result =
     criteria_loop i (Suc j) rest (vague_loop i j criterion vaguePatterns result)"

fun acceptance_loop :: "nat \<Rightarrow> TaskNode list \<Rightarrow> ValidationResult \<Rightarrow> ValidationResult" where
  "acceptance_loop i [] result = result"
| "acceptance_loop i (t # ts) result =
     acceptance_loop (Suc i) ts (criteria_loop i 0 (Acceptance t) result)"

definition checkAcceptanceQuality :: "TaskGraph \<Rightarrow> ValidationResult \<Rightarrow> ValidationResult" where
  "checkAcceptanceQuality graph result = acceptance_loop 0 (Tasks graph) result"

subsection \<open>V9: contextual fields\<close>

definition missing_field_warning :: "nat \<Rightarrow> TaskNode \<Rightarrow> string \<Rightarrow> ValidationError" where
  "missing_field_warning i t field =
     \<lparr>Rule = ''V9'', Severity = SeverityWarning,
      Path = ''tasks['' @ itoa (int i) @ ''].'' @ field,
      Message = ''Contextual field '' @ sq @ field @ sq @ '' is missing from task '' @ sq
                @ TaskID t @ sq
                @ ''. Contextual fields should be explicitly present or set to {'' @ dq
                @ ''status'' @ dq @ '': '' @ dq @ ''N/A'' @ dq @ '', '' @ dq @ ''reason'' @ dq
                @ '': '' @ dq @ ''...'' @ dq @ ''}.'',
      Suggestion = ''Either provide a value for '' @ sq @ field @ sq
                   @ '' or explicitly mark it as not applicable: {'' @ dq @ ''status'' @ dq
                   @ '': '' @ dq @ ''N/A'' @ dq @ '', '' @ dq @ ''reason'' @ dq @ '': '' @ dq
                   @ ''your justification here'' @ dq @ ''}.'',
      Context = []\<rparr>"

definition contextual_raw :: "TaskNode \<Rightarrow> string \<Rightarrow> json_raw option" where
  "contextual_raw t field =
     (if field = ''depends_on'' then DependsOn t
      else if field = ''constraints'' then Constraints t
      else if field = ''files_scope'' then FilesScope t
      else None)"

fun fields_loop :: "nat \<Rightarrow> TaskNode \<Rightarrow> string list \<Rightarrow> ValidationResult \<Rightarrow> ValidationResult" where
  "fields_loop i t [] result = result"
| "fields_loop i t (field # rest) result =
     fields_loop i t rest
       (if contextual_raw t field = None then AddError result (missing_field_warning i t field)
        else result)"

fun contextual_loop :: "nat \<Rightarrow> TaskNode list \<Rightarrow> ValidationResult \<Rightarrow> ValidationResult" where
  "contextual_loop i [] result = result"
| "contextual_loop i (t # ts) result =
     contextual_loop (Suc i) ts
       (fields_loop i t [''depends_on'', ''constraints'', ''files_scope''] result)"

definition checkContextualFields :: "TaskGraph \<Rightarrow> ValidationResult \<Rightarrow> ValidationResult" where
  "checkContextualFields graph result = contextual_loop 0 (Tasks graph) result"

subsection \<open>V10: files scope of implementation tasks\<close>

definition implVerbs :: "string list" where
  "implVerbs = [''implement'', ''add'', ''fix'', ''create'', ''build'', ''write'']"

definition isImplTask :: "TaskNode \<Rightarrow> bool" where
  "isImplTask t = list_ex (\<lambda>verb. HasPrefix (ToLower (TaskName t)) verb) implVerbs"

definition files_scope_warning :: "nat \<Rightarrow> TaskNode \<Rightarrow> ValidationError" where
  "files_scope_warning i t =
     \<lparr>Rule = ''V10'', Severity = SeverityWarning,
      Path = ''tasks['' @ itoa (int i) @ ''].files_scope'',
      Message = ''Task '' @ sq @ TaskID t @ sq
                @ '' appears to be an implementation task (name starts with an implementation verb) but has no files_scope defined.'',
      Suggestion = ''Add a files_scope listing the files the agent should create or modify. This prevents unintended changes to other parts of the codebase.'',
      Context = []\<rparr>"

fun files_scope_loop :: "nat \<Rightarrow> TaskNode list \<Rightarrow> ValidationResult \<Rightarrow> ValidationResult" where
  "files_scope_loop i [] result = result"
| "files_scope_loop i (t # ts) result =
     files_scope_loop (Suc i) ts
       (if \<not> isImplTask t then result
        else case ParseFilesScope t of
               Inl err \<Rightarrow> result
             | Inr (files, na) \<Rightarrow>
                 if files = None \<and> na = None then AddError result (files_scope_warning i t)
                 else result)"

definition checkFilesScope :: "TaskGraph \<Rightarrow> ValidationResult \<Rightarrow> ValidationResult" where
  "checkFilesScope graph result = files_scope_loop 0 (Tasks graph) result"

subsection \<open>Milestones\<close>

definition milestone_error :: "string \<Rightarrow> string \<Rightarrow> string \<Rightarrow> ValidationError" where
  "milestone_error path message suggestion =
     \<lparr>Rule = ''MILESTONE'', Severity = SeverityError, Path = path, Message = message,
      Suggestion = suggestion, Context = []\<rparr>"

fun milestone_tasks_loop ::
  "nat \<Rightarrow> Milestone \<Rightarrow> (string \<times> nat) list \<Rightarrow> string list \<Rightarrow> ValidationResult \<Rightarrow> ValidationResult" where
  "milestone_tasks_loop i m taskIndex [] result = result"
| "milestone_tasks_loop i m taskIndex (tid # rest) result =
     milestone_tasks_loop i m taskIndex rest
       (if map_of taskIndex tid = None then
          AddError result
            (milestone_error (''milestones['' @ itoa (int i) @ ''].task_ids'')
               (''Milestone '' @ sq @ Name m @ sq @ '' references task_id '' @ sq @ tid @ sq
                @ '', but no task with that ID exists in the graph.'')
               (''Add a task with task_id '' @ sq @ tid @ sq @ '' or remove it from the milestone.''))
        else result)"

fun milestone_names_loop ::
  "nat \<Rightarrow> Milestone list \<Rightarrow> (string \<times> nat) list \<Rightarrow> (string \<times> nat) list \<times> ValidationResult
     \<Rightarrow> (string \<times> nat) list \<times> ValidationResult" where
  "milestone_names_loop i [] taskIndex (milestoneIndex, result) = (milestoneIndex, result)"
| "milestone_names_loop i (m # ms) taskIndex (milestoneIndex, result) =
     (let result =
            (case map_of milestoneIndex (Name m) of
               Some prev \<Rightarrow>
                 AddError result
                   (milestone_error (''milestones['' @ itoa (int i) @ ''].name'')
                      (''Duplicate milestone name '' @ sq @ Name m @ sq @ '' '' @ em_dash
                       @ '' first occurrence at milestones['' @ itoa (int prev) @ ''].'')
                      ''Every milestone name must be unique. Rename one of the duplicates.'')
             | None \<Rightarrow> result);
          milestoneIndex = AList.update (Name m) i milestoneIndex;
          result = milestone_tasks_loop i m taskIndex (TaskIDs m) result
      in milestone_names_loop (Suc i) ms taskIndex (milestoneIndex, result))"

fun milestone_dep_loop ::
  "nat \<Rightarrow> Milestone \<Rightarrow> (string \<times> nat) list \<Rightarrow> string list \<Rightarrow> ValidationResult \<Rightarrow> ValidationResult" where
  "milestone_dep_loop i m milestoneIndex [] result = result"
| "milestone_dep_loop i m milestoneIndex (dep # rest) result =
     milestone_dep_loop i m milestoneIndex rest
       (if map_of milestoneIndex dep = None then
          AddError result
            (milestone_error (''milestones['' @ itoa (int i) @ ''].depends_on_milestones'')
               (''Milestone '' @ sq @ Name m @ sq @ '' depends on milestone '' @ sq @ dep @ sq
                @ '', but no milestone with that name exists.'')
               (''Add a milestone named '' @ sq @ dep @ sq
                @ '' or remove it from depends_on_milestones.''))
        else result)"

fun milestone_deps_loop ::
  "nat \<Rightarrow> Milestone list \<Rightarrow> (string \<times> nat) list \<Rightarrow> ValidationResult \<Rightarrow> ValidationResult" where
  "milestone_deps_loop i [] milestoneIndex result = result"
| "milestone_deps_loop i (m # ms) milestoneIndex result =
     milestone_deps_loop (Suc i) ms milestoneIndex
       (milestone_dep_loop i m milestoneIndex (DependsOnMilestones m) result)"

definition checkMilestones ::
  "TaskGraph \<Rightarrow> (string \<times> nat) list \<Rightarrow> ValidationResult \<Rightarrow> ValidationResult" where
  "checkMilestones graph taskIndex result =
     (case Milestones graph of
        None \<Rightarrow> result
      | Some milestones \<Rightarrow>
          (case milestone_names_loop 0 milestones taskIndex ([], result) of
             (milestoneIndex, result) \<Rightarrow> milestone_deps_loop 0 milestones milestoneIndex result))"

subsection \<open>The semantic validator\<close>

definition ValidateTaskGraph ::
  "(nat \<Rightarrow> string list \<Rightarrow> string list) \<Rightarrow> TaskGraph \<Rightarrow> ValidationResult \<Rightarrow> ValidationResult" where
  "ValidateTaskGraph order graph result =
     (let result = result\<lparr>Stats := (Stats result)\<lparr>TotalTasks := length (Tasks graph)\<rparr>\<rparr>;
          taskIndex = index_tasks 0 (Tasks graph) [];
          result = checkUniqueTaskIDs graph result;
          result = checkDependencyReferences graph taskIndex result;
          result = checkDAGAcyclicity order graph taskIndex result;
          result = checkGoalQuality graph result;
          result = checkAcceptanceQuality graph result;
          result = checkContextualFields graph result;
          result = checkFilesScope graph result
      in checkMilestones graph taskIndex result)"

section \<open>Validation orchestrator\<close>

text \<open>
  What \<open>Validate\<close> takes from outside the program: the schema library (whether the
  compilation of the two embedded schemas fails, and the evaluation of a document
  against each), the decoding of the bytes by \<open>json.Unmarshal\<close> into a task or a
  graph, and the order of the iterations over maps (\<open>range_order 0\<close> for the schema
  findings, 1 and 2 for the cycle check).
\<close>

record validator_env =
  schema_init :: "string option"
  node_schema :: "string \<Rightarrow> schema_eval"
  graph_schema :: "string \<Rightarrow> schema_eval"
  unmarshal_node :: "string \<Rightarrow> string + TaskNode"
  unmarshal_graph :: "string \<Rightarrow> string + TaskGraph"
  range_order :: "nat \<Rightarrow> string list \<Rightarrow> string list"

definition new_result :: ValidationResult where
  "new_result =
     \<lparr>Valid = True, Errors = [],
      Stats = \<lparr>TotalTasks = 0, ErrorCount = 0, WarningCount = 0, InfoCount = 0\<rparr>,
      Graph = None\<rparr>"

text \<open>Tier 1 alone: the schema validation of the document in the given mode.\<close>

definition tier1 :: "validator_env \<Rightarrow> string \<Rightarrow> int \<Rightarrow> ValidationResult" where
  "tier1 env data mode =
     Schema_Validate (range_order env 0)
       (if mode = 0 then node_schema env data else graph_schema env data) new_result"

definition tier2 :: "validator_env \<Rightarrow> TaskGraph \<Rightarrow> ValidationResult \<Rightarrow> ValidationResult" where
  "tier2 env graph result =
     (let result = ValidateTaskGraph (range_order env) graph result
      in if Valid result then result\<lparr>Graph := Some graph\<rparr> else result)"

text \<open>
  \<open>Validate\<close>: the modes are \<open>ModeSingleTask = 0\<close> and \<open>ModeTaskGraph = 1\<close>. An
  error return is \<open>Inl\<close> with its message.
\<close>

definition Validate :: "validator_env \<Rightarrow> string \<Rightarrow> int \<Rightarrow> string + ValidationResult" where
  "Validate env data mode =
     (case schema_init env of
        Some err \<Rightarrow> Inl (''initializing schema validator: '' @ err)
      | None \<Rightarrow>
          if mode = 0 then
            (let result = tier1 env data mode in
             if Valid result then
               (case unmarshal_node env data of
                  Inl err \<Rightarrow> Inl (''parsing task node: '' @ err)
                | Inr task \<Rightarrow>
                    Inr (tier2 env \<lparr>Version = ''0.1.0'', Milestones = None, Tasks = [task]\<rparr> result))
             else Inr result)
          else if mode = 1 then
            (let result = tier1 env data mode in
             if Valid result then
               (case unmarshal_graph env data of
                  Inl err \<Rightarrow> Inl (''parsing task graph: '' @ err)
                | Inr graph \<Rightarrow> Inr (tier2 env graph result))
             else Inr result)
          else Inl (''unknown validation mode: '' @ itoa mode))"

section \<open>Relations between results\<close>

text \<open>
  \<open>adds r r'\<close>: the result \<open>r'\<close> is \<open>r\<close> after some calls of \<open>AddError\<close>.
  \<open>alike r s r' s'\<close>: the same calls lead from \<open>r\<close> to \<open>r'\<close> and from \<open>s\<close> to
  \<open>s'\<close>.
\<close>

definition adds :: "ValidationResult \<Rightarrow> ValidationResult \<Rightarrow> bool" where
  "adds r r' = (\<exists>es. r' = foldl AddError r es)"

definition alike ::
  "ValidationResult \<Rightarrow> ValidationResult \<Rightarrow> ValidationResult \<Rightarrow> ValidationResult \<Rightarrow> bool" where
  "alike r s r' s' = (\<exists>es. r' = foldl AddError r es \<and> s' = foldl AddError s es)"

text \<open>
  Two findings are the same up to the order of the members of a cycle when they are
  equal or are both the V5 finding of a cycle, over the same identifiers. Two results
  agree when they have the same verdict, statistics and graph, and their findings are
  the same: one by one up to the order of the members of a cycle (\<open>in_order\<close>), or as
  a multiset.
\<close>

definition same_finding :: "ValidationError \<Rightarrow> ValidationError \<Rightarrow> bool" where
  "same_finding e e' =
     (e = e' \<or> (\<exists>ms ms'. mset ms = mset ms' \<and> e = cycle_error ms \<and> e' = cycle_error ms'))"

definition results_agree :: "bool \<Rightarrow> ValidationResult \<Rightarrow> ValidationResult \<Rightarrow> bool" where
  "results_agree in_order r r' =
     (Valid r = Valid r' \<and> Stats r = Stats r' \<and> Graph r = Graph r'
      \<and> (if in_order then list_all2 same_finding (Errors r) (Errors r')
         else mset (Errors r) = mset (Errors r')))"

section \<open>Example documents\<close>

text \<open>Concrete tasks and graphs, on which the theorems below are instantiated.\<close>

definition example_task :: "string \<Rightarrow> string \<Rightarrow> json_raw option \<Rightarrow> TaskNode" where
  "example_task tid name deps =
     \<lparr>TaskID = tid, TaskName = name, Goal = ''X returns Y.'',
      Inputs = [\<lparr>in_Name = ''x'', in_Type = ''int'', in_Constraints = ''x>0'', in_Source = ''arg''\<rparr>],
      Outputs = [\<lparr>out_Name = ''y'', out_Type = ''int'', out_Constraints = ''y>=0'',
                  out_Destination = ''return''\<rparr>],
      Acceptance = [''f(5) = 25''],
      DependsOn = deps, Constraints = Some (JStringArray [''pure'']),
      FilesScope = Some (JStringArray [''a.go'']), NonGoals = [], Effects = None,
      ErrorCases = [], Priority = [], Estimate = [], Notes = []\<rparr>"

definition example_creator :: Creator where
  "example_creator = \<lparr>DryRun = False, EpicTitle = [], Filename = ''graph.json''\<rparr>"

definition example_marshal :: "templateData \<Rightarrow> string + string" where
  "example_marshal meta = Inr (''{task_id:'' @ td_TaskID meta @ ''}'')"

definition graph_ab :: TaskGraph where
  "graph_ab =
     \<lparr>Version = ''0.1.0'', Milestones = None,
      Tasks = [(example_task ''task-b'' ''Implement B'' (Some (JStringArray [''task-a''])))
                 \<lparr>Priority := ''low''\<rparr>,
               (example_task ''task-a'' ''Implement A'' (Some (JObject ''{}'' ''N/A'' ''none'')))
                 \<lparr>Priority := ''High''\<rparr>]\<rparr>"

definition task_large :: TaskNode where
  "task_large =
     (example_task ''task-a'' ''--estimate'' None)\<lparr>Estimate := ''LARGE'', Notes := ''--estimate''\<rparr>"

definition task_unknown :: TaskNode where
  "task_unknown =
     (example_task ''task-a'' ''--estimate'' None)\<lparr>Estimate := ''unknown'', Notes := ''--estimate''\<rparr>"

definition cmds_ab :: "BdCommand list" where
  "cmds_ab = projr (BuildGraphCommands example_creator example_marshal graph_ab)"

definition document_order :: "nat \<Rightarrow> string list \<Rightarrow> string list" where
  "document_order site ks = ks"

definition reverse_order :: "nat \<Rightarrow> string list \<Rightarrow> string list" where
  "reverse_order site ks = rev ks"

definition accepting_schema :: "string \<Rightarrow> schema_eval" where
  "accepting_schema data = \<lparr>IsValid = True, DetailedErrors = []\<rparr>"

definition rejecting_schema :: "string \<Rightarrow> schema_eval" where
  "rejecting_schema data =
     \<lparr>IsValid = False,
      DetailedErrors =
        [(''/tasks/0/task_id/pattern'',
          ''Value does not match the required pattern ^[a-z0-9]+(-[a-z0-9]+)*$''),
         ([], ''Required property version is missing'')]\<rparr>"

text \<open>
  An environment whose schemas accept the document and whose decoder reads it as the
  given graph, with the given order of map iteration.
\<close>

definition example_env :: "(nat \<Rightarrow> string list \<Rightarrow> string list) \<Rightarrow> TaskGraph \<Rightarrow> validator_env" where
  "example_env order graph =
     \<lparr>schema_init = None, node_schema = accepting_schema, graph_schema = accepting_schema,
      unmarshal_node = (\<lambda>data. case Tasks graph of [] \<Rightarrow> Inl ''unexpected end of JSON input''
                                 | t # ts \<Rightarrow> Inr t),
      unmarshal_graph = (\<lambda>data. Inr graph),
      range_order = order\<rparr>"

definition rejecting_env :: validator_env where
  "rejecting_env = (example_env document_order graph_ab)\<lparr>graph_schema := rejecting_schema\<rparr>"

definition errors_with_rule :: "string \<Rightarrow> ValidationResult \<Rightarrow> ValidationError list" where
  "errors_with_rule rule r = filter (\<lambda>e. Rule e = rule) (Errors r)"

definition graph_warned :: TaskGraph where
  "graph_warned =
     \<lparr>Version = ''0.1.0'', Milestones = None,
      Tasks = [(example_task ''task-a'' ''Implement A'' None)\<lparr>FilesScope := None\<rparr>]\<rparr>"

definition result_warned :: ValidationResult where
  "result_warned = projr (Validate (example_env document_order graph_warned) ''graph_warned'' 1)"

definition graph_empty_scope :: TaskGraph where
  "graph_empty_scope =
     \<lparr>Version = ''0.1.0'', Milestones = None,
      Tasks = [(example_task ''task-a'' ''Implement A'' None)\<lparr>FilesScope := Some (JStringArray [])\<rparr>]\<rparr>"

definition graph_warned_second :: TaskGraph where
  "graph_warned_second =
     \<lparr>Version = ''0.1.0'', Milestones = None,
      Tasks = [example_task ''task-a'' ''Review A'' None,
               (example_task ''task-b'' ''ADD the B flag'' None)\<lparr>FilesScope := Some JNull\<rparr>]\<rparr>"

definition graph_triplicate :: TaskGraph where
  "graph_triplicate =
     \<lparr>Version = ''0.1.0'', Milestones = None,
      Tasks = [example_task ''task-a'' ''Implement A'' None,
               example_task ''task-a'' ''Implement A again'' None,
               example_task ''task-a'' ''Implement A once more'' None]\<rparr>"

definition graph_cyclic :: TaskGraph where
  "graph_cyclic =
     \<lparr>Version = ''0.1.0'', Milestones = None,
      Tasks = [example_task ''task-a'' ''Implement task A'' (Some (JStringArray [''task-b''])),
               example_task ''task-b'' ''Implement task B'' (Some (JStringArray [''task-a'']))]\<rparr>"

definition table_order :: "nat \<Rightarrow> nat \<Rightarrow> string list \<Rightarrow> string list" where
  "table_order n i ks = ks"

text \<open>
  A tracker that answers every command with a fresh identifier, and one whose third
  subprocess fails, writing a message between blank lines to its standard error.
\<close>

definition counting_tracker :: tracker where
  "counting_tracker invoked args = Exit_ok (''bd-'' @ itoa (int (length invoked) + 1) @ nl)"

definition locked_stderr :: string where
  "locked_stderr = nl @ ''Error: database is locked'' @ nl @ nl"

definition failing_tracker :: tracker where
  "failing_tracker invoked args =
     (if length invoked = 2 then Exit_fail locked_stderr ''exit status 1''
      else counting_tracker invoked args)"

definition state_after_two ::
  "CreationResult \<times> (string \<times> string) list \<times> string list list" where
  "state_after_two =
     the (run_commands failing_tracker table_order 0 (take 2 cmds_ab) (empty_result, [], []))"

definition error_of :: "CreationResult \<times> string option \<times> string list list \<Rightarrow> string" where
  "error_of run = (case run of (result, Some text, invoked) \<Rightarrow> text | (result, None, invoked) \<Rightarrow> [])"

definition graph_epic :: TaskGraph where
  "graph_epic =
     \<lparr>Version = ''0.1.0'', Milestones = None,
      Tasks = [example_task ''epic'' ''Implement the epic view''
                 (Some (JObject ''{}'' ''N/A'' ''none'')),
               example_task ''task-b'' ''Implement B'' (Some (JStringArray [''epic'']))]\<rparr>"

definition cmds_epic :: "BdCommand list" where
  "cmds_epic = projr (BuildGraphCommands example_creator example_marshal graph_epic)"

definition run_failing :: "CreationResult \<times> string option \<times> string list list" where
  "run_failing = ExecuteCommands failing_tracker table_order cmds_ab"

definition run_epic :: "CreationResult \<times> string option \<times> string list list" where
  "run_epic = ExecuteCommands counting_tracker table_order cmds_epic"

section \<open>Field mapping: estimate and priority\<close>

lemma itoa_estimates:
  "itoa 15 = ''15''" "itoa 60 = ''60''" "itoa 240 = ''240''" "itoa 480 = ''480''"
  by code_simp+

lemma MapEstimate_cases:
  "MapEstimate e =
     (if ToLower e = ''trivial'' then 15 else if ToLower e = ''small'' then 60
      else if ToLower e = ''medium'' then 240 else if ToLower e = ''large'' then 480 else 0)"
  by (simp add: MapEstimate_def Let_def)

text \<open>
  C8. The create command of a task carries the flag \<open>--estimate\<close> exactly when the
  estimate of the task, put in lower case, is \<open>trivial\<close>, \<open>small\<close>, \<open>medium\<close> or
  \<open>large\<close>; its value is then 15, 60, 240 or 480. For every other estimate
  (\<open>unknown\<close>, empty, unrecognised) the flag is absent, so a zero is never emitted.
\<close>

theorem estimate_flag_only_for_known_sizes:
  "flag_value ''--estimate'' (tl (buildTaskCreateArgs c task parentID)) =
     (if ToLower (Estimate task) = ''trivial'' then Some ''15''
      else if ToLower (Estimate task) = ''small'' then Some ''60''
      else if ToLower (Estimate task) = ''medium'' then Some ''240''
      else if ToLower (Estimate task) = ''large'' then Some ''480''
      else None)"
  by (simp add: buildTaskCreateArgs_def Let_def MapEstimate_cases itoa_estimates)

theorem estimate_flag_only_for_known_sizes_witness:
  "flag_value ''--estimate'' (tl (buildTaskCreateArgs example_creator task_large ''<epic-id>''))
     = Some ''480''
   \<and> flag_value ''--estimate'' (tl (buildTaskCreateArgs example_creator task_unknown ''<epic-id>''))
     = None"
proof -
  have "ToLower (Estimate task_large) = ''large''"
    by code_simp
  moreover have "ToLower (Estimate task_unknown) = ''unknown''"
    by code_simp
  ultimately show ?thesis
    using estimate_flag_only_for_known_sizes [of example_creator task_large "''<epic-id>''"]
      estimate_flag_only_for_known_sizes [of example_creator task_unknown "''<epic-id>''"]
    by simp
qed

lemma Min_insert_step:
  "finite S \<Longrightarrow> Min (insert (b::int) (insert p S)) = Min (insert (if p < b then p else b) S)"
  by (cases "S = {}") (auto simp: min_def)

lemma priority_loop_Min:
  "priority_loop b ts = Min (insert b (set (map (\<lambda>t. MapPriority (Priority t)) ts)))"
proof (induction ts arbitrary: b)
  case Nil
  show ?case by simp
next
  case (Cons t ts)
  show ?case
    using Min_insert_step [of "set (map (\<lambda>t. MapPriority (Priority t)) ts)" b "MapPriority (Priority t)"]
    by (simp add: Cons.IH Let_def)
qed

text \<open>
  C10. The first command that \<open>BuildGraphCommands\<close> returns creates the epic, and the
  value of its \<open>--priority\<close> flag is the least of 2 and the mapped priorities of all
  the tasks of the graph: 2 when no task maps below 2 (an empty graph included), the
  minimum otherwise.
\<close>

theorem epic_priority_is_minimum_capped_at_2:
  assumes "BuildGraphCommands c marshal graph = Inr cmds"
  shows "cmds \<noteq> [] \<and> cmd_Type (hd cmds) = ''create-epic''
         \<and> flag_value ''--priority'' (tl (Args (hd cmds)))
             = Some (itoa (Min (insert 2 ((\<lambda>t. MapPriority (Priority t)) ` set (Tasks graph)))))"
proof -
  from assms obtain rest where cmds: "cmds = epic_command c graph # rest"
    by (auto simp: BuildGraphCommands_def split: option.splits sum.splits)
  have "resolveGraphPriority c graph
          = Min (insert 2 ((\<lambda>t. MapPriority (Priority t)) ` set (Tasks graph)))"
    by (simp add: resolveGraphPriority_def priority_loop_Min)
  then show ?thesis
    by (simp add: cmds epic_command_def Let_def)
qed

lemma build_graph_ab: "BuildGraphCommands example_creator example_marshal graph_ab = Inr cmds_ab"
  unfolding cmds_ab_def by code_simp

theorem epic_priority_is_minimum_capped_at_2_witness:
  "BuildGraphCommands example_creator example_marshal graph_ab = Inr cmds_ab
   \<and> cmd_Type (hd cmds_ab) = ''create-epic''
   \<and> flag_value ''--priority'' (tl (Args (hd cmds_ab))) = Some ''1''"
proof -
  have "itoa (Min (insert 2 ((\<lambda>t. MapPriority (Priority t)) ` set (Tasks graph_ab)))) = ''1''"
    by code_simp
  with epic_priority_is_minimum_capped_at_2 [OF build_graph_ab] build_graph_ab
  show ?thesis by simp
qed

section \<open>Findings only accumulate\<close>

text \<open>
  \<open>adds r r'\<close>: the result \<open>r'\<close> comes from \<open>r\<close> by calls of \<open>AddError\<close> alone.
  Every semantic rule stands in this relation to the result it is given.
\<close>

lemma Errors_AddError: "Errors (AddError r e) = Errors r @ [e]"
  by (cases "Severity e") (simp_all add: AddError_def)

lemma Graph_AddError: "Graph (AddError r e) = Graph r"
  by (cases "Severity e") (simp_all add: AddError_def)

lemma Valid_AddError: "Valid (AddError r e) = (Valid r \<and> Severity e \<noteq> SeverityError)"
  by (cases "Severity e") (simp_all add: AddError_def)

lemma TotalTasks_AddError: "TotalTasks (Stats (AddError r e)) = TotalTasks (Stats r)"
  by (cases "Severity e") (simp_all add: AddError_def)

lemma Errors_foldl_AddError: "Errors (foldl AddError r es) = Errors r @ es"
  by (induction es arbitrary: r) (simp_all add: Errors_AddError)

lemma Graph_foldl_AddError: "Graph (foldl AddError r es) = Graph r"
  by (induction es arbitrary: r) (simp_all add: Graph_AddError)

lemma Valid_foldl_AddError:
  "Valid (foldl AddError r es) = (Valid r \<and> (\<forall>e\<in>set es. Severity e \<noteq> SeverityError))"
  by (induction es arbitrary: r) (auto simp: Valid_AddError)

lemma TotalTasks_foldl_AddError: "TotalTasks (Stats (foldl AddError r es)) = TotalTasks (Stats r)"
  by (induction es arbitrary: r) (simp_all add: TotalTasks_AddError)

lemma adds_refl: "adds r r"
  unfolding adds_def by (rule exI [of _ "[]"]) simp

lemma adds_AddError: "adds r (AddError r e)"
  unfolding adds_def by (rule exI [of _ "[e]"]) simp

lemma adds_trans: "adds r r' \<Longrightarrow> adds r' r'' \<Longrightarrow> adds r r''"
  unfolding adds_def by (metis foldl_append)

lemma adds_step: "adds (AddError r e) r' \<Longrightarrow> adds r r'"
  using adds_AddError adds_trans by blast

lemma adds_Errors: "adds r r' \<Longrightarrow> \<exists>es. Errors r' = Errors r @ es"
  unfolding adds_def by (auto simp: Errors_foldl_AddError)

lemma adds_mono: "adds r r' \<Longrightarrow> set (Errors r) \<subseteq> set (Errors r')"
  by (auto dest: adds_Errors)

lemma adds_unique_loop: "adds r (unique_loop i ts seen r)"
  by (induction ts arbitrary: i seen r)
     (auto intro: adds_refl adds_step split: option.splits)

lemma adds_reference_loop: "adds r (reference_loop i t taskIndex deps r)"
proof (induction deps arbitrary: r)
  case Nil
  show ?case by (simp add: adds_refl)
next
  case (Cons dep deps)
  show ?case
    using Cons.IH by (auto simp: Let_def intro: adds_step)
qed

lemma adds_references_loop: "adds r (references_loop i ts taskIndex r)"
proof (induction ts arbitrary: i r)
  case Nil
  show ?case by (simp add: adds_refl)
next
  case (Cons t ts)
  show ?case
    by (auto split: sum.splits
        intro: adds_step [OF Cons.IH] adds_trans [OF adds_reference_loop Cons.IH])
qed

lemma adds_checkDAGAcyclicity: "adds r (checkDAGAcyclicity order graph taskIndex r)"
  by (auto simp: checkDAGAcyclicity_def Let_def adds_refl adds_AddError split: prod.splits)

lemma adds_forbidden_loop: "adds r (forbidden_loop i t ws r)"
  by (induction ws arbitrary: r) (auto intro: adds_refl adds_step)

lemma adds_goal_loop: "adds r (goal_loop i ts r)"
proof (induction ts arbitrary: i r)
  case Nil
  show ?case by (simp add: adds_refl)
next
  case (Cons t ts)
  have "adds r (AddError (forbidden_loop i t goalForbiddenWords r) e)" for e
    by (rule adds_trans [OF adds_forbidden_loop adds_AddError])
  then show ?case
    by (auto simp: Let_def intro: adds_trans [OF _ Cons.IH] adds_forbidden_loop)
qed

lemma adds_vague_loop: "adds r (vague_loop i j criterion ps r)"
proof (induction ps arbitrary: r)
  case Nil
  show ?case by (simp add: adds_refl)
next
  case (Cons p ps)
  show ?case
    by (cases p) (auto intro: adds_step [OF Cons.IH] Cons.IH)
qed

lemma adds_criteria_loop: "adds r (criteria_loop i j cs r)"
proof (induction cs arbitrary: j r)
  case Nil
  show ?case by (simp add: adds_refl)
next
  case (Cons c cs)
  show ?case
    by (simp add: adds_trans [OF adds_vague_loop Cons.IH])
qed

lemma adds_acceptance_loop: "adds r (acceptance_loop i ts r)"
proof (induction ts arbitrary: i r)
  case Nil
  show ?case by (simp add: adds_refl)
next
  case (Cons t ts)
  show ?case
    by (simp add: adds_trans [OF adds_criteria_loop Cons.IH])
qed

lemma adds_fields_loop: "adds r (fields_loop i t fs r)"
  by (induction fs arbitrary: r) (auto intro: adds_refl adds_step)

lemma adds_contextual_loop: "adds r (contextual_loop i ts r)"
proof (induction ts arbitrary: i r)
  case Nil
  show ?case by (simp add: adds_refl)
next
  case (Cons t ts)
  show ?case
    unfolding contextual_loop.simps by (rule adds_trans [OF adds_fields_loop Cons.IH])
qed

lemma adds_files_scope_loop: "adds r (files_scope_loop i ts r)"
  by (induction ts arbitrary: i r)
     (auto intro: adds_refl adds_step split: sum.splits)

lemma adds_milestone_tasks_loop: "adds r (milestone_tasks_loop i m taskIndex tids r)"
  by (induction tids arbitrary: r) (auto intro: adds_refl adds_step)

lemma adds_milestone_names_loop:
  "adds r (snd (milestone_names_loop i ms taskIndex (milestoneIndex, r)))"
proof (induction ms arbitrary: i milestoneIndex r)
  case Nil
  show ?case by (simp add: adds_refl)
next
  case (Cons m ms)
  have "adds r (milestone_tasks_loop i m taskIndex (TaskIDs m) (AddError r e))" for e
    by (rule adds_step [OF adds_milestone_tasks_loop])
  then show ?case
    by (auto simp: Let_def split: option.splits
        intro: adds_trans [OF _ Cons.IH] adds_milestone_tasks_loop)
qed

lemma adds_milestone_dep_loop: "adds r (milestone_dep_loop i m milestoneIndex deps r)"
  by (induction deps arbitrary: r) (auto intro: adds_refl adds_step)

lemma adds_milestone_deps_loop: "adds r (milestone_deps_loop i ms milestoneIndex r)"
proof (induction ms arbitrary: i r)
  case Nil
  show ?case by (simp add: adds_refl)
next
  case (Cons m ms)
  show ?case
    by (simp add: adds_trans [OF adds_milestone_dep_loop Cons.IH])
qed

lemma adds_checkMilestones: "adds r (checkMilestones graph taskIndex r)"
proof (cases "Milestones graph")
  case None
  then show ?thesis by (simp add: checkMilestones_def adds_refl)
next
  case (Some ms)
  obtain mi r' where loop: "milestone_names_loop 0 ms taskIndex ([], r) = (mi, r')"
    by (cases "milestone_names_loop 0 ms taskIndex ([], r)")
  have "adds r r'"
    using adds_milestone_names_loop [of r 0 ms taskIndex "[]"] loop by simp
  then show ?thesis
    using adds_milestone_deps_loop [of r' 0 ms mi] Some loop
    by (auto simp: checkMilestones_def intro: adds_trans)
qed

lemma adds_rules_before_files_scope:
  "adds r (checkContextualFields graph (checkAcceptanceQuality graph (checkGoalQuality graph
       (checkDAGAcyclicity order graph taskIndex
          (checkDependencyReferences graph taskIndex (checkUniqueTaskIDs graph r))))))"
  unfolding checkContextualFields_def checkAcceptanceQuality_def checkGoalQuality_def
    checkDependencyReferences_def checkUniqueTaskIDs_def
  by (meson adds_trans adds_unique_loop adds_references_loop adds_checkDAGAcyclicity
      adds_goal_loop adds_acceptance_loop adds_contextual_loop)

lemma adds_ValidateTaskGraph:
  "adds (r\<lparr>Stats := (Stats r)\<lparr>TotalTasks := length (Tasks graph)\<rparr>\<rparr>) (ValidateTaskGraph order graph r)"
  unfolding ValidateTaskGraph_def Let_def checkFilesScope_def
  by (meson adds_trans adds_rules_before_files_scope adds_files_scope_loop adds_checkMilestones)

text \<open>The rules after the cycle check add the same findings to any two results.\<close>

lemma alike_refl: "alike r s r s"
  unfolding alike_def by (rule exI [of _ "[]"]) simp

lemma alike_AddError: "alike r s (AddError r e) (AddError s e)"
  unfolding alike_def by (rule exI [of _ "[e]"]) simp

lemma alike_trans: "alike r s r' s' \<Longrightarrow> alike r' s' r'' s'' \<Longrightarrow> alike r s r'' s''"
  unfolding alike_def by (metis foldl_append)

lemma alike_step: "alike (AddError r e) (AddError s e) r' s' \<Longrightarrow> alike r s r' s'"
  using alike_AddError alike_trans by blast

lemma alike_forbidden_loop: "alike r s (forbidden_loop i t ws r) (forbidden_loop i t ws s)"
  by (induction ws arbitrary: r s) (auto intro: alike_refl alike_step)

lemma alike_goal_loop: "alike r s (goal_loop i ts r) (goal_loop i ts s)"
proof (induction ts arbitrary: i r s)
  case Nil
  show ?case by (simp add: alike_refl)
next
  case (Cons t ts)
  have "alike r s (AddError (forbidden_loop i t goalForbiddenWords r) e)
          (AddError (forbidden_loop i t goalForbiddenWords s) e)" for e
    by (rule alike_trans [OF alike_forbidden_loop alike_AddError])
  then show ?case
    by (auto simp: Let_def intro: alike_trans [OF _ Cons.IH] alike_forbidden_loop)
qed

lemma alike_vague_loop: "alike r s (vague_loop i j criterion ps r) (vague_loop i j criterion ps s)"
proof (induction ps arbitrary: r s)
  case Nil
  show ?case by (simp add: alike_refl)
next
  case (Cons p ps)
  show ?case
    by (cases p) (auto intro: alike_step [OF Cons.IH] Cons.IH)
qed

lemma alike_criteria_loop: "alike r s (criteria_loop i j cs r) (criteria_loop i j cs s)"
proof (induction cs arbitrary: j r s)
  case Nil
  show ?case by (simp add: alike_refl)
next
  case (Cons c cs)
  show ?case
    by (simp add: alike_trans [OF alike_vague_loop Cons.IH])
qed

lemma alike_acceptance_loop: "alike r s (acceptance_loop i ts r) (acceptance_loop i ts s)"
proof (induction ts arbitrary: i r s)
  case Nil
  show ?case by (simp add: alike_refl)
next
  case (Cons t ts)
  show ?case
    by (simp add: alike_trans [OF alike_criteria_loop Cons.IH])
qed

lemma alike_fields_loop: "alike r s (fields_loop i t fs r) (fields_loop i t fs s)"
  by (induction fs arbitrary: r s) (auto intro: alike_refl alike_step)

lemma alike_contextual_loop: "alike r s (contextual_loop i ts r) (contextual_loop i ts s)"
proof (induction ts arbitrary: i r s)
  case Nil
  show ?case by (simp add: alike_refl)
next
  case (Cons t ts)
  show ?case
    unfolding contextual_loop.simps by (rule alike_trans [OF alike_fields_loop Cons.IH])
qed

lemma alike_files_scope_loop: "alike r s (files_scope_loop i ts r) (files_scope_loop i ts s)"
  by (induction ts arbitrary: i r s)
     (auto intro: alike_refl alike_step split: sum.splits)

lemma alike_milestone_tasks_loop:
  "alike r s (milestone_tasks_loop i m taskIndex tids r) (milestone_tasks_loop i m taskIndex tids s)"
  by (induction tids arbitrary: r s) (auto intro: alike_refl alike_step)

lemma alike_milestone_names_loop:
  "alike r s (snd (milestone_names_loop i ms taskIndex (milestoneIndex, r)))
     (snd (milestone_names_loop i ms taskIndex (milestoneIndex, s)))
   \<and> fst (milestone_names_loop i ms taskIndex (milestoneIndex, r))
       = fst (milestone_names_loop i ms taskIndex (milestoneIndex, s))"
proof (induction ms arbitrary: i milestoneIndex r s)
  case Nil
  show ?case by (simp add: alike_refl)
next
  case (Cons m ms)
  have "alike r s (milestone_tasks_loop i m taskIndex (TaskIDs m) (AddError r e))
          (milestone_tasks_loop i m taskIndex (TaskIDs m) (AddError s e))" for e
    by (rule alike_step [OF alike_milestone_tasks_loop])
  then show ?case
    using Cons.IH
    by (auto simp: Let_def split: option.splits
        intro: alike_trans [OF _ Cons.IH [THEN conjunct1]] alike_milestone_tasks_loop)
qed

lemma alike_milestone_dep_loop:
  "alike r s (milestone_dep_loop i m milestoneIndex deps r)
     (milestone_dep_loop i m milestoneIndex deps s)"
  by (induction deps arbitrary: r s) (auto intro: alike_refl alike_step)

lemma alike_milestone_deps_loop:
  "alike r s (milestone_deps_loop i ms milestoneIndex r) (milestone_deps_loop i ms milestoneIndex s)"
proof (induction ms arbitrary: i r s)
  case Nil
  show ?case by (simp add: alike_refl)
next
  case (Cons m ms)
  show ?case
    by (simp add: alike_trans [OF alike_milestone_dep_loop Cons.IH])
qed

lemma alike_checkMilestones:
  "alike r s (checkMilestones graph taskIndex r) (checkMilestones graph taskIndex s)"
proof (cases "Milestones graph")
  case None
  then show ?thesis by (simp add: checkMilestones_def alike_refl)
next
  case (Some ms)
  obtain mi r' where loop: "milestone_names_loop 0 ms taskIndex ([], r) = (mi, r')"
    by (cases "milestone_names_loop 0 ms taskIndex ([], r)")
  obtain mi' s' where loop': "milestone_names_loop 0 ms taskIndex ([], s) = (mi', s')"
    by (cases "milestone_names_loop 0 ms taskIndex ([], s)")
  have "alike r s r' s'" and "mi' = mi"
    using alike_milestone_names_loop [of r s 0 ms taskIndex "[]"] loop loop' by simp_all
  then show ?thesis
    using alike_milestone_deps_loop [of r' s' 0 ms mi] Some loop loop'
    by (auto simp: checkMilestones_def intro: alike_trans)
qed

lemma alike_rules_after_cycle_check:
  "alike r s
     (checkMilestones graph taskIndex (checkFilesScope graph (checkContextualFields graph
        (checkAcceptanceQuality graph (checkGoalQuality graph r)))))
     (checkMilestones graph taskIndex (checkFilesScope graph (checkContextualFields graph
        (checkAcceptanceQuality graph (checkGoalQuality graph s)))))"
  unfolding checkContextualFields_def checkAcceptanceQuality_def checkGoalQuality_def
    checkFilesScope_def
  by (meson alike_trans alike_goal_loop alike_acceptance_loop alike_contextual_loop
      alike_files_scope_loop alike_checkMilestones)

section \<open>The two tiers\<close>

lemma tier1_fold:
  "\<exists>es. tier1 env data mode = foldl AddError new_result es
        \<and> (\<forall>e\<in>set es. Rule e = ''SCHEMA'' \<and> Severity e = SeverityError)"
proof (cases "IsValid (if mode = 0 then node_schema env data else graph_schema env data)")
  case True
  then have "tier1 env data mode = foldl AddError new_result []"
    by (simp add: tier1_def Schema_Validate_def)
  then show ?thesis by fastforce
next
  case False
  define es where "es = map schema_error (range_map (range_order env 0)
    (DetailedErrors (if mode = 0 then node_schema env data else graph_schema env data)))"
  have "tier1 env data mode = foldl AddError new_result es"
    using False by (simp add: tier1_def Schema_Validate_def convertSchemaErrors_def es_def)
  moreover have "\<forall>e\<in>set es. Rule e = ''SCHEMA'' \<and> Severity e = SeverityError"
    by (auto simp: es_def schema_error_def Let_def)
  ultimately show ?thesis by blast
qed

lemma tier1_ignores_decoders:
  "tier1 (env\<lparr>unmarshal_node := un, unmarshal_graph := ug\<rparr>) data mode = tier1 env data mode"
  by (simp add: tier1_def)

text \<open>
  C3. When Tier 1 records at least one finding, \<open>Validate\<close> returns the result of
  Tier 1 as it is, whatever the decoders of the document would do: no semantic rule
  runs. Every finding of the result has the rule \<open>SCHEMA\<close>, the task count that the
  semantic validator sets first is still zero, and the result holds no graph.
\<close>

theorem schema_failure_skips_tier2:
  assumes "schema_init env = None" and "mode = 0 \<or> mode = 1"
    and "Errors (tier1 env data mode) \<noteq> []"
  shows "Validate (env\<lparr>unmarshal_node := un, unmarshal_graph := ug\<rparr>) data mode
           = Inr (tier1 env data mode)
         \<and> Validate env data mode = Inr (tier1 env data mode)
         \<and> (\<forall>e\<in>set (Errors (tier1 env data mode)). Rule e = ''SCHEMA'')
         \<and> Graph (tier1 env data mode) = None
         \<and> TotalTasks (Stats (tier1 env data mode)) = 0"
proof -
  obtain es where fold: "tier1 env data mode = foldl AddError new_result es"
    and schema: "\<forall>e\<in>set es. Rule e = ''SCHEMA'' \<and> Severity e = SeverityError"
    using tier1_fold by blast
  from assms(3) have "es \<noteq> []"
    by (simp add: fold Errors_foldl_AddError new_result_def)
  then obtain e where "e \<in> set es"
    by (cases es) auto
  with schema have invalid: "\<not> Valid (tier1 env data mode)"
    by (auto simp: fold Valid_foldl_AddError)
  have direct: "Validate env' data mode = Inr (tier1 env data mode)"
    if "schema_init env' = None" and "tier1 env' data mode = tier1 env data mode" for env'
    using that assms(2) invalid by (auto simp: Validate_def Let_def)
  have "Validate (env\<lparr>unmarshal_node := un, unmarshal_graph := ug\<rparr>) data mode
          = Inr (tier1 env data mode)"
    by (rule direct) (simp_all add: assms(1) tier1_ignores_decoders)
  moreover have "Validate env data mode = Inr (tier1 env data mode)"
    by (rule direct) (simp_all add: assms(1))
  moreover have "\<forall>e\<in>set (Errors (tier1 env data mode)). Rule e = ''SCHEMA''"
    using schema by (simp add: fold Errors_foldl_AddError new_result_def)
  moreover have "Graph (tier1 env data mode) = None"
    by (simp add: fold Graph_foldl_AddError new_result_def)
  moreover have "TotalTasks (Stats (tier1 env data mode)) = 0"
    by (simp add: fold TotalTasks_foldl_AddError new_result_def)
  ultimately show ?thesis by blast
qed

theorem schema_failure_skips_tier2_witness:
  "schema_init rejecting_env = None
   \<and> length (Errors (tier1 rejecting_env ''graph_ab'' 1)) = 2
   \<and> Validate rejecting_env ''graph_ab'' 1 = Inr (tier1 rejecting_env ''graph_ab'' 1)
   \<and> Graph (tier1 rejecting_env ''graph_ab'' 1) = None"
proof -
  have init: "schema_init rejecting_env = None"
    by (simp add: rejecting_env_def example_env_def)
  have two: "length (Errors (tier1 rejecting_env ''graph_ab'' 1)) = 2"
    by code_simp
  then have "Errors (tier1 rejecting_env ''graph_ab'' 1) \<noteq> []"
    by auto
  from schema_failure_skips_tier2 [where un = "unmarshal_node rejecting_env"
      and ug = "unmarshal_graph rejecting_env", OF init _ this] init two
  show ?thesis by simp
qed

lemma Valid_iff_no_error_after:
  assumes "adds r r'" and "Valid r = (\<forall>e\<in>set (Errors r). Severity e \<noteq> SeverityError)"
  shows "Valid r' = (\<forall>e\<in>set (Errors r'). Severity e \<noteq> SeverityError)"
  using assms by (auto simp: adds_def Valid_foldl_AddError Errors_foldl_AddError)

lemma Graph_after: "adds r r' \<Longrightarrow> Graph r' = Graph r"
  by (auto simp: adds_def Graph_foldl_AddError)

lemma tier1_invariant:
  "Valid (tier1 env data mode) = (\<forall>e\<in>set (Errors (tier1 env data mode)). Severity e \<noteq> SeverityError)"
  "Graph (tier1 env data mode) = None"
proof -
  have "adds new_result (tier1 env data mode)"
    using tier1_fold [of env data mode] by (auto simp: adds_def)
  then show "Valid (tier1 env data mode)
      = (\<forall>e\<in>set (Errors (tier1 env data mode)). Severity e \<noteq> SeverityError)"
    and "Graph (tier1 env data mode) = None"
    by (auto dest: Graph_after Valid_iff_no_error_after simp: new_result_def)
qed

lemma tier2_invariant:
  assumes "Valid r = (\<forall>e\<in>set (Errors r). Severity e \<noteq> SeverityError)" and "Graph r = None"
  shows "(Graph (tier2 env graph r) \<noteq> None)
           = (\<forall>e\<in>set (Errors (tier2 env graph r)). Severity e \<noteq> SeverityError)"
proof -
  define r0 where "r0 = r\<lparr>Stats := (Stats r)\<lparr>TotalTasks := length (Tasks graph)\<rparr>\<rparr>"
  define r' where "r' = ValidateTaskGraph (range_order env) graph r"
  have a: "adds r0 r'"
    unfolding r0_def r'_def by (rule adds_ValidateTaskGraph)
  have "Valid r0 = (\<forall>e\<in>set (Errors r0). Severity e \<noteq> SeverityError)"
    using assms(1) by (simp add: r0_def)
  from Valid_iff_no_error_after [OF a this]
  have v: "Valid r' = (\<forall>e\<in>set (Errors r'). Severity e \<noteq> SeverityError)" .
  have g: "Graph r' = None"
    using Graph_after [OF a] assms(2) by (simp add: r0_def)
  show ?thesis
    using v g by (auto simp: tier2_def Let_def r'_def [symmetric])
qed

text \<open>Tier 2 attaches the graph it is given, and no other.\<close>

lemma tier2_graph:
  assumes "Graph r = None" and "Graph (tier2 env graph r) = Some g"
  shows "g = graph"
proof -
  have "adds (r\<lparr>Stats := (Stats r)\<lparr>TotalTasks := length (Tasks graph)\<rparr>\<rparr>)
          (ValidateTaskGraph (range_order env) graph r)"
    by (rule adds_ValidateTaskGraph)
  from Graph_after [OF this] assms(1)
  have "Graph (ValidateTaskGraph (range_order env) graph r) = None"
    by simp
  with assms(2) show ?thesis
    by (auto simp: tier2_def Let_def split: if_splits)
qed

text \<open>
  C5. A result that \<open>Validate\<close> returns holds a graph exactly when none of its
  findings has the severity ERROR; findings of the severities WARNING and INFO do not
  keep the graph away. The graph it holds is the parsed one: in graph mode the graph
  that the decoder returned for the bytes, in single-task mode the graph of version
  \<open>0.1.0\<close> whose only task is the task that the decoder returned.
\<close>

theorem graph_attached_iff_no_error_finding:
  assumes "Validate env data mode = Inr r"
  shows "((Graph r \<noteq> None) = (\<forall>e\<in>set (Errors r). Severity e \<noteq> SeverityError))
         \<and> (\<forall>g. Graph r = Some g \<longrightarrow>
               (mode = 0 \<and> (\<exists>task. unmarshal_node env data = Inr task
                   \<and> g = \<lparr>Version = ''0.1.0'', Milestones = None, Tasks = [task]\<rparr>))
               \<or> (mode = 1 \<and> unmarshal_graph env data = Inr g))"
proof -
  note inv = tier1_invariant [of env data mode]
  from assms consider
      (tier1) "\<not> Valid (tier1 env data mode)" and "r = tier1 env data mode"
    | (node) task where "mode = 0" and "unmarshal_node env data = Inr task"
        and "r = tier2 env \<lparr>Version = ''0.1.0'', Milestones = None, Tasks = [task]\<rparr>
                   (tier1 env data mode)"
    | (graph) graph where "mode = 1" and "unmarshal_graph env data = Inr graph"
        and "r = tier2 env graph (tier1 env data mode)"
    by (auto simp: Validate_def Let_def split: option.splits if_splits sum.splits)
  then show ?thesis
  proof cases
    case tier1
    with inv show ?thesis by auto
  next
    case (node task)
    from tier2_invariant [OF inv] node(3)
    have "(Graph r \<noteq> None) = (\<forall>e\<in>set (Errors r). Severity e \<noteq> SeverityError)"
      by simp
    moreover from tier2_graph [OF inv(2)] node
    have "\<forall>g. Graph r = Some g \<longrightarrow> g = \<lparr>Version = ''0.1.0'', Milestones = None, Tasks = [task]\<rparr>"
      by blast
    ultimately show ?thesis
      using node(1,2) by simp
  next
    case (graph graph)
    from tier2_invariant [OF inv] graph(3)
    have "(Graph r \<noteq> None) = (\<forall>e\<in>set (Errors r). Severity e \<noteq> SeverityError)"
      by simp
    moreover from tier2_graph [OF inv(2)] graph
    have "\<forall>g. Graph r = Some g \<longrightarrow> g = graph"
      by blast
    ultimately show ?thesis
      using graph(1,2) by simp
  qed
qed

lemma validate_graph_warned:
  "Validate (example_env document_order graph_warned) ''graph_warned'' 1 = Inr result_warned"
  unfolding result_warned_def by code_simp

theorem graph_attached_iff_no_error_finding_witness:
  "Validate (example_env document_order graph_warned) ''graph_warned'' 1 = Inr result_warned
   \<and> map Rule (Errors result_warned) = [''V9'', ''V9'', ''V10'']
   \<and> map Severity (Errors result_warned) = [SeverityWarning, SeverityWarning, SeverityWarning]
   \<and> unmarshal_graph (example_env document_order graph_warned) ''graph_warned'' = Inr graph_warned
   \<and> Graph result_warned = Some graph_warned"
proof -
  have rules: "map Rule (Errors result_warned) = [''V9'', ''V9'', ''V10'']"
    unfolding result_warned_def by code_simp
  have sev: "map Severity (Errors result_warned)
               = [SeverityWarning, SeverityWarning, SeverityWarning]"
    unfolding result_warned_def by code_simp
  then have "\<forall>e\<in>set (Errors result_warned). Severity e \<noteq> SeverityError"
    by (metis Severity.distinct(1) in_set_conv_nth length_map nth_map nth_mem set_ConsD
        empty_iff empty_set)
  moreover have decoded:
    "unmarshal_graph (example_env document_order graph_warned) ''graph_warned'' = Inr graph_warned"
    by (simp add: example_env_def)
  ultimately have "Graph result_warned = Some graph_warned"
    using graph_attached_iff_no_error_finding [OF validate_graph_warned] by auto
  with rules sev validate_graph_warned decoded show ?thesis
    by simp
qed

section \<open>Implementation tasks without a files scope (V10)\<close>

lemma files_scope_loop_warns:
  assumes "j < length ts" and "isImplTask (ts ! j)"
    and "FilesScope (ts ! j) = None \<or> FilesScope (ts ! j) = Some JNull"
  shows "files_scope_warning (i + j) (ts ! j) \<in> set (Errors (files_scope_loop i ts r))"
  using assms
proof (induction ts arbitrary: i j r)
  case Nil
  then show ?case by simp
next
  case (Cons t ts)
  show ?case
  proof (cases j)
    case 0
    with Cons.prems have "ParseFilesScope t = Inr (None, None)" and "isImplTask t"
      by (auto simp: ParseFilesScope_def)
    then have "files_scope_loop i (t # ts) r
                 = files_scope_loop (Suc i) ts (AddError r (files_scope_warning i t))"
      by simp
    moreover have "files_scope_warning i t \<in> set (Errors (AddError r (files_scope_warning i t)))"
      by (simp add: Errors_AddError)
    ultimately show ?thesis
      using adds_mono [OF adds_files_scope_loop] 0 by auto
  next
    case (Suc j')
    with Cons.prems Cons.IH [of j' "Suc i"] show ?thesis
      by simp
  qed
qed

text \<open>
  What the rule does. A task whose name, in lower case, begins with one of the
  verbs \<open>implement\<close>, \<open>add\<close>, \<open>fix\<close>, \<open>create\<close>, \<open>build\<close>, \<open>write\<close>, and whose
  \<open>files_scope\<close> is absent or is the JSON \<open>null\<close>, gets the V10 finding of its index,
  of severity WARNING, in the result of the semantic validator.
\<close>

theorem impl_task_without_files_scope_is_warned:
  assumes "i < length (Tasks graph)"
    and "verb \<in> {''implement'', ''add'', ''fix'', ''create'', ''build'', ''write''}"
    and "HasPrefix (ToLower (TaskName (Tasks graph ! i))) verb"
    and "FilesScope (Tasks graph ! i) = None \<or> FilesScope (Tasks graph ! i) = Some JNull"
  shows "files_scope_warning i (Tasks graph ! i) \<in> set (Errors (ValidateTaskGraph order graph result))
         \<and> Rule (files_scope_warning i (Tasks graph ! i)) = ''V10''
         \<and> Severity (files_scope_warning i (Tasks graph ! i)) = SeverityWarning"
proof -
  from assms(2,3) have "isImplTask (Tasks graph ! i)"
    by (auto simp: isImplTask_def implVerbs_def)
  from files_scope_loop_warns [OF assms(1) this assms(4), of 0]
  have "files_scope_warning i (Tasks graph ! i) \<in> set (Errors (checkFilesScope graph r))" for r
    by (simp add: checkFilesScope_def)
  then have "files_scope_warning i (Tasks graph ! i)
               \<in> set (Errors (ValidateTaskGraph order graph result))"
    unfolding ValidateTaskGraph_def Let_def
    using adds_mono [OF adds_checkMilestones] by blast
  then show ?thesis
    by (simp add: files_scope_warning_def)
qed

theorem impl_task_without_files_scope_is_warned_witness:
  "HasPrefix (ToLower (TaskName (Tasks graph_warned_second ! 1))) ''add''
   \<and> FilesScope (Tasks graph_warned_second ! 1) = Some JNull
   \<and> files_scope_warning 1 (Tasks graph_warned_second ! 1)
       \<in> set (Errors (ValidateTaskGraph document_order graph_warned_second new_result))"
proof -
  have len: "1 < length (Tasks graph_warned_second)"
    by (simp add: graph_warned_second_def)
  have verb: "''add'' \<in> {''implement'', ''add'', ''fix'', ''create'', ''build'', ''write''}"
    by simp
  have pre: "HasPrefix (ToLower (TaskName (Tasks graph_warned_second ! 1))) ''add''"
    by code_simp
  have scope: "FilesScope (Tasks graph_warned_second ! 1) = Some JNull"
    by (simp add: graph_warned_second_def example_task_def)
  from impl_task_without_files_scope_is_warned [OF len verb pre disjI2 [OF scope]] pre scope
  show ?thesis by simp
qed

text \<open>
  C7 at an implementation task whose \<open>files_scope\<close> is the empty list \<open>[]\<close>. The
  list is neither populated nor a marker, and the comments of the rule say that it
  warns if the files scope is empty. The decoder returns an empty slice that is not
  \<open>nil\<close>, the test \<open>files == nil\<close> fails, and \<open>Validate\<close> returns a result with no V10
  finding. The same task without the field gets the finding.
\<close>

theorem empty_files_scope_gets_no_warning:
  "isImplTask (Tasks graph_empty_scope ! 0)
   \<and> FilesScope (Tasks graph_empty_scope ! 0) = Some (JStringArray [])
   \<and> ParseFilesScope (Tasks graph_empty_scope ! 0) = Inr (Some [], None)
   \<and> \<not> isl (Validate (example_env document_order graph_empty_scope) ''graph_empty_scope'' 1)
   \<and> errors_with_rule ''V10'' (projr
        (Validate (example_env document_order graph_empty_scope) ''graph_empty_scope'' 1)) = []
   \<and> errors_with_rule ''V10'' (projr
        (Validate (example_env document_order graph_warned) ''graph_warned'' 1))
       = [files_scope_warning 0 (Tasks graph_warned ! 0)]"
  by code_simp

section \<open>Duplicate identifiers (V2)\<close>

text \<open>
  C6 at three tasks with the one identifier \<open>task-a\<close>: the second and the third
  task get one V2 finding each; the finding of the third names index 1, the
  occurrence just before it, where the first occurrence has index 0.
\<close>

theorem third_duplicate_cites_previous_index:
  "map (\<lambda>e. (Rule e, Path e, Message e)) (Errors (checkUniqueTaskIDs graph_triplicate new_result))
     = [(''V2'', ''tasks[1].task_id'',
         ''Duplicate task_id '' @ sq @ ''task-a'' @ sq @ '' '' @ em_dash
           @ '' first occurrence at tasks[0].''),
        (''V2'', ''tasks[2].task_id'',
         ''Duplicate task_id '' @ sq @ ''task-a'' @ sq @ '' '' @ em_dash
           @ '' first occurrence at tasks[1].'')]"
  by code_simp

section \<open>Executing the commands\<close>

lemma HasPrefix_append: "HasPrefix (p @ s) p"
  by (induction p) simp_all

lemma Contains_HasPrefix: "HasPrefix s p \<Longrightarrow> Contains s p"
  by (cases s; cases p) simp_all

lemma Contains_append_left: "Contains s sub \<Longrightarrow> Contains (x @ s) sub"
  by (induction x) simp_all

lemma Contains_middle: "Contains (x @ sub @ y) sub"
  by (rule Contains_append_left, rule Contains_HasPrefix, rule HasPrefix_append)

lemma failure_text_has_args: "Contains (failure_text args err created) (Join args '' '')"
  unfolding failure_text_def by (rule Contains_middle)

lemma failure_text_has_error: "Contains (failure_text args err created) err"
proof -
  have "failure_text args err created
          = (''bd command failed: bd '' @ Join args '' '' @ nl @ ''  Error: '') @ err
            @ (nl @ ''  '' @ itoa (int created) @ '' issues created before failure'')"
    by (simp add: failure_text_def)
  then show ?thesis
    by (simp only: Contains_middle)
qed

lemma Created_record_command:
  "Created (fst (record_command cmd bdID (result, idMap)))
     = Created result + (if is_create cmd then 1 else 0)"
  by (auto simp: record_command_def is_create_def Let_def split: option.splits)

lemma idMap_record_command:
  "snd (record_command cmd bdID (result, idMap))
     = (case assigned_key cmd of None \<Rightarrow> idMap | Some k \<Rightarrow> AList.update k bdID idMap)"
  by (auto simp: record_command_def assigned_key_def Let_def)

lemma exec_step_success:
  assumes "exec_step bd order cmd (result, idMap, invoked) = Inr (result', idMap', invoked')"
  shows "invoked' = invoked @ [replaceIDs order (Args cmd) idMap]
         \<and> Created result' = Created result + (if is_create cmd then 1 else 0)"
  using assms Created_record_command [of cmd _ result idMap]
  by (auto simp: exec_step_def Let_def runBdCommand_def
      split: bd_outcome.splits sum.splits prod.splits)

lemma exec_step_failure:
  assumes "bd invoked (replaceIDs order (Args cmd) idMap) = Exit_fail stderr err"
  shows "exec_step bd order cmd (result, idMap, invoked)
           = Inl (failure_text (replaceIDs order (Args cmd) idMap)
                    (if TrimSpace stderr = [] then err else TrimSpace stderr) (Created result),
                  invoked @ [replaceIDs order (Args cmd) idMap])"
  using assms by (simp add: exec_step_def Let_def runBdCommand_def)

lemma run_commands_counts:
  assumes "run_commands bd order n pre (result, idMap, invoked) = Some (result', idMap', invoked')"
  shows "length invoked' = length invoked + length pre
         \<and> Created result' = Created result + length (filter is_create pre)"
  using assms
proof (induction pre arbitrary: n result idMap invoked)
  case Nil
  then show ?case by simp
next
  case (Cons cmd pre)
  from Cons.prems obtain r1 m1 i1
    where step: "exec_step bd (order n) cmd (result, idMap, invoked) = Inr (r1, m1, i1)"
      and rest: "run_commands bd order (Suc n) pre (r1, m1, i1) = Some (result', idMap', invoked')"
    by (auto split: sum.splits)
  from exec_step_success [OF step] Cons.IH [OF rest] show ?case
    by auto
qed

lemma exec_loop_after_run:
  assumes "run_commands bd order n pre st = Some st'"
  shows "exec_loop bd order n (pre @ rest) st = exec_loop bd order (n + length pre) rest st'"
  using assms
proof (induction pre arbitrary: n st)
  case Nil
  then show ?case by simp
next
  case (Cons cmd pre)
  then show ?case
    by (auto split: sum.splits)
qed

text \<open>
  C2, as the code has it. Let the commands before the k-th all succeed, and let the
  subprocess of the k-th, run on its arguments after substitution, fail with \<open>stderr\<close>
  on its standard error. Then \<open>ExecuteCommands\<close> returns an error and the result as
  it was before the k-th command; the subprocesses that have run are those of the
  first k commands and no other; \<open>Created\<close> counts the create commands among the first
  k-1; and the text of the error contains the substituted arguments, joined by
  blanks, and the standard error without its leading and trailing white space (the
  text of the process error when nothing else is left).
\<close>

theorem first_failure_stops_execution:
  assumes "run_commands bd order 0 pre (empty_result, [], []) = Some (result, idMap, invoked)"
    and "args = replaceIDs (order (length pre)) (Args cmd) idMap"
    and "bd invoked args = Exit_fail stderr err"
    and "message = failure_text args (if TrimSpace stderr = [] then err else TrimSpace stderr)
                  (Created result)"
  shows "ExecuteCommands bd order (pre @ cmd # post) = (result, Some message, invoked @ [args])
         \<and> length (invoked @ [args]) = length pre + 1
         \<and> Created result = length (filter is_create pre)
         \<and> Contains message (Join args '' '')
         \<and> Contains message (if TrimSpace stderr = [] then err else TrimSpace stderr)"
proof -
  from run_commands_counts [OF assms(1)]
  have counts: "length invoked = length pre" "Created result = length (filter is_create pre)"
    by (simp_all add: empty_result_def)
  have "ExecuteCommands bd order (pre @ cmd # post)
          = exec_loop bd order (length pre) (cmd # post) (result, idMap, invoked)"
    unfolding ExecuteCommands_def using exec_loop_after_run [OF assms(1)] by simp
  also have "\<dots> = (result, Some message, invoked @ [args])"
    using exec_step_failure [of bd invoked "order (length pre)" cmd idMap stderr err result]
      assms(2,3,4)
    by simp
  finally show ?thesis
    using counts failure_text_has_args failure_text_has_error by (simp add: assms(4))
qed

lemma run_two_of_ab:
  "run_commands failing_tracker table_order 0 (take 2 cmds_ab) (empty_result, [], [])
     = Some (fst state_after_two, fst (snd state_after_two), snd (snd state_after_two))"
  unfolding state_after_two_def cmds_ab_def by code_simp

theorem first_failure_stops_execution_witness:
  "failing_tracker (snd (snd state_after_two))
      (replaceIDs (table_order 2) (Args (cmds_ab ! 2)) (fst (snd state_after_two)))
     = Exit_fail locked_stderr ''exit status 1''
   \<and> fst run_failing = fst state_after_two
   \<and> Created (fst run_failing) = 2
   \<and> length (snd (snd run_failing)) = 3
   \<and> Contains (error_of run_failing) ''Error: database is locked''"
proof -
  define args where
    "args = replaceIDs (table_order (length (take 2 cmds_ab))) (Args (cmds_ab ! 2))
              (fst (snd state_after_two))"
  define message where
    "message = failure_text args
       (if TrimSpace locked_stderr = [] then ''exit status 1'' else TrimSpace locked_stderr)
       (Created (fst state_after_two))"
  have len: "length cmds_ab = 6"
    unfolding cmds_ab_def by code_simp
  then have split: "take 2 cmds_ab @ cmds_ab ! 2 # drop 3 cmds_ab = cmds_ab"
    using id_take_nth_drop [of 2 cmds_ab] by (simp add: numeral_3_eq_3)
  have args2: "args = replaceIDs (table_order 2) (Args (cmds_ab ! 2)) (fst (snd state_after_two))"
    using len by (simp add: args_def)
  have two: "length (snd (snd state_after_two)) = 2"
    using run_commands_counts [OF run_two_of_ab] len by simp
  then have fail: "failing_tracker (snd (snd state_after_two)) args
                     = Exit_fail locked_stderr ''exit status 1''"
    by (simp add: failing_tracker_def)
  have trim: "TrimSpace locked_stderr = ''Error: database is locked''"
    by code_simp
  have creates: "length (filter is_create (take 2 cmds_ab)) = 2"
    unfolding cmds_ab_def by code_simp
  note run = first_failure_stops_execution [OF run_two_of_ab args_def fail message_def,
      of "drop 3 cmds_ab", unfolded split]
  from run have rf: "run_failing = (fst state_after_two, Some message, snd (snd state_after_two) @ [args])"
    by (simp add: run_failing_def)
  from run have has: "Contains message ''Error: database is locked''"
    by (simp add: trim)
  from run have created: "Created (fst state_after_two) = 2"
    by (simp only: creates)
  show ?thesis
    unfolding rf using fail two has created by (simp add: error_of_def args2)
qed

text \<open>
  C2 as the specification words it asks for the standard error itself in the
  text. In the run above the third subprocess writes its message between blank
  lines; the text of the error has the message, not those bytes.
\<close>

theorem raw_stderr_counterexample:
  "snd (snd run_failing) ! 2 = replaceIDs (table_order 2) (Args (cmds_ab ! 2)) (fst (snd state_after_two))
   \<and> failing_tracker (take 2 (snd (snd run_failing))) (snd (snd run_failing) ! 2)
       = Exit_fail locked_stderr ''exit status 1''
   \<and> \<not> Contains (error_of run_failing) locked_stderr"
  unfolding run_failing_def state_after_two_def cmds_ab_def by code_simp

section \<open>The substitution table\<close>

text \<open>
  C9 at a validated graph with a task whose identifier is \<open>epic\<close>: the command that
  creates the epic and the command that creates this task assign the same key
  \<open><epic-id>\<close>. The task that is created next is given the tracker's identifier of
  that task as its parent, not the identifier of the epic.
\<close>

theorem epic_key_assigned_twice:
  "BuildGraphCommands example_creator example_marshal graph_epic = Inr cmds_epic
   \<and> Errors (projr (Validate (example_env document_order graph_epic) ''graph_epic'' 1)) = []
   \<and> Graph (projr (Validate (example_env document_order graph_epic) ''graph_epic'' 1))
       = Some graph_epic
   \<and> map assigned_key (take 3 cmds_epic)
       = [Some ''<epic-id>'', Some ''<epic-id>'', Some ''<task-b-id>'']
   \<and> EpicID (fst run_epic) = ''bd-1''
   \<and> map_of (res_TaskIDs (fst run_epic)) ''epic'' = Some ''bd-2''
   \<and> flag_value ''--parent'' (tl (Args (cmds_epic ! 2))) = Some ''<epic-id>''
   \<and> flag_value ''--parent'' (tl (snd (snd run_epic) ! 2)) = Some ''bd-2''"
  unfolding run_epic_def cmds_epic_def by code_simp

section \<open>Topological order of the create commands\<close>

lemma map_get_update:
  "map_get z (AList.update k v m) x = (if x = k then v else map_get z m x)"
  by (simp add: map_get_def update_conv')

lemma map_get_Nil: "map_get z [] x = z"
  by (simp add: map_get_def)

lemma count_list_replicate_eq: "count_list (replicate k a) x = (if x = a then k else 0)"
  by (induction k) auto

lemma count_le_filter: "P a \<Longrightarrow> count_list xs a \<le> length (filter P xs)"
  by (induction xs) auto

lemma filter_insert_count:
  "a \<notin> S \<Longrightarrow>
     length (filter (\<lambda>y. y \<notin> insert a S) xs) + count_list xs a
       = length (filter (\<lambda>y. y \<notin> S) xs)"
  by (induction xs) auto

lemma known_entries_Cons:
  "known_entries taskIndex (t # ts) x =
     (if TaskID t = x
      then filter (\<lambda>dep. map_of taskIndex dep \<noteq> None) (dependencies t) @ known_entries taskIndex ts x
      else known_entries taskIndex ts x)"
  by (simp add: known_entries_def)

lemma known_entries_Nil: "known_entries taskIndex [] x = []"
  by (simp add: known_entries_def)

lemma set_known_entries:
  "y \<in> set (known_entries taskIndex ts x) \<longleftrightarrow>
     (\<exists>t\<in>set ts. TaskID t = x \<and> y \<in> set (dependencies t) \<and> map_of taskIndex y \<noteq> None)"
  by (auto simp: known_entries_def)

text \<open>The two maps after the loops that build them.\<close>

lemma add_edges_of_spec:
  assumes "add_edges_of tid taskIndex deps (adj, inDegree) = (adj', inDegree')"
  shows "(\<forall>x. map_get 0 inDegree' x
            = map_get 0 inDegree x
              + (if x = tid then int (length (filter (\<lambda>dep. map_of taskIndex dep \<noteq> None) deps))
                 else 0))
         \<and> (\<forall>y. map_get [] adj' y
              = map_get [] adj y
                @ replicate (count_list (filter (\<lambda>dep. map_of taskIndex dep \<noteq> None) deps) y) tid)
         \<and> map fst inDegree' = map fst inDegree
              @ (if tid \<in> set (map fst inDegree)
                    \<or> filter (\<lambda>dep. map_of taskIndex dep \<noteq> None) deps = [] then [] else [tid])"
  using assms
proof (induction deps arbitrary: adj inDegree)
  case Nil
  then show ?case by simp
next
  case (Cons dep deps)
  show ?case
  proof (cases "map_of taskIndex dep = None")
    case True
    with Cons.prems have "add_edges_of tid taskIndex deps (adj, inDegree) = (adj', inDegree')"
      by simp
    from Cons.IH [OF this] True show ?thesis
      by simp
  next
    case False
    define adj1 where "adj1 = AList.update dep (map_get [] adj dep @ [tid]) adj"
    define inDegree1 where "inDegree1 = AList.update tid (map_get 0 inDegree tid + 1) inDegree"
    from Cons.prems False
    have "add_edges_of tid taskIndex deps (adj1, inDegree1) = (adj', inDegree')"
      by (auto simp: adj1_def inDegree1_def)
    from Cons.IH [OF this] False show ?thesis
      by (auto simp: adj1_def inDegree1_def map_get_update replicate_append_same update_keys)
  qed
qed


lemma add_edges_spec:
  assumes "add_edges ts taskIndex (adj, inDegree) = (adj', inDegree')"
  shows "(\<forall>x. map_get 0 inDegree' x
            = map_get 0 inDegree x + int (length (known_entries taskIndex ts x)))
         \<and> (\<forall>y x. count_list (map_get [] adj' y) x
               = count_list (map_get [] adj y) x + count_list (known_entries taskIndex ts x) y)
         \<and> (TaskID ` set ts \<subseteq> set (map fst inDegree) \<longrightarrow> map fst inDegree' = map fst inDegree)"
  using assms
proof (induction ts arbitrary: adj inDegree)
  case Nil
  then show ?case by (simp add: known_entries_Nil)
next
  case (Cons t ts)
  obtain adj1 inDegree1 where step:
    "add_edges_of (TaskID t) taskIndex (dependencies t) (adj, inDegree) = (adj1, inDegree1)"
    by (cases "add_edges_of (TaskID t) taskIndex (dependencies t) (adj, inDegree)")
  have unfold: "add_edges (t # ts) taskIndex (adj, inDegree)
                  = add_edges ts taskIndex (adj1, inDegree1)"
    using step by (auto simp: dependencies_def split: sum.splits)
  have rest: "add_edges ts taskIndex (adj1, inDegree1) = (adj', inDegree')"
    unfolding unfold [symmetric] by (rule Cons.prems)
  note IH = Cons.IH [OF rest] and first = add_edges_of_spec [OF step]
  have "map_get 0 inDegree' x
          = map_get 0 inDegree x + int (length (known_entries taskIndex (t # ts) x))" for x
    using IH first by (simp add: known_entries_Cons)
  moreover have "count_list (map_get [] adj' y) x
      = count_list (map_get [] adj y) x + count_list (known_entries taskIndex (t # ts) x) y" for y x
    using IH first by (simp add: known_entries_Cons count_list_replicate_eq)
  moreover have "map fst inDegree' = map fst inDegree"
    if "TaskID ` set (t # ts) \<subseteq> set (map fst inDegree)"
  proof -
    from that first have "map fst inDegree1 = map fst inDegree"
      by simp
    with that IH show ?thesis
      by simp
  qed
  ultimately show ?case by blast
qed

lemma seed_queue_filter:
  "seed_queue ts inDegree = filter (\<lambda>x. map_get 0 inDegree x = 0) (map TaskID ts)"
  by (induction ts) simp_all

text \<open>The inner loop of Kahn's algorithm.\<close>

lemma relax_spec:
  assumes "relax ns (d, q) = (d', q')"
    and "\<forall>x\<in>set ns. int (count_list ns x) \<le> map_get 0 d x"
  shows "(\<forall>x. map_get 0 d' x = map_get 0 d x - int (count_list ns x))
         \<and> set q' = set q \<union> {y \<in> set ns. map_get 0 d' y = 0}
         \<and> (distinct q \<longrightarrow> set q \<inter> set ns = {} \<longrightarrow> distinct q')"
  using assms
proof (induction ns arbitrary: d q)
  case Nil
  then show ?case by simp
next
  case (Cons n ns)
  define d1 where "d1 = AList.update n (map_get 0 d n - 1) d"
  define q1 where "q1 = (if map_get 0 d1 n = 0 then q @ [n] else q)"
  have unfold_relax: "relax (n # ns) (d, q) = relax ns (d1, q1)"
    unfolding d1_def q1_def by (simp add: Let_def)
  have d1: "map_get 0 d1 y = (if y = n then map_get 0 d n - 1 else map_get 0 d y)" for y
    by (simp add: d1_def map_get_update)
  have pre: "\<forall>y\<in>set ns. int (count_list ns y) \<le> map_get 0 d1 y"
    using Cons.prems(2) by (auto simp: d1)
  have rest: "relax ns (d1, q1) = (d', q')"
    unfolding unfold_relax [symmetric] by (rule Cons.prems(1))
  note IH = Cons.IH [OF rest pre]
  have final: "map_get 0 d' x = map_get 0 d1 x - int (count_list ns x)" for x
    using IH by blast
  have pushed: "n \<notin> set ns" if "map_get 0 d1 n = 0"
  proof
    assume "n \<in> set ns"
    then have "0 < count_list ns n"
      using count_list_0_iff [of ns n] by auto
    with pre \<open>n \<in> set ns\<close> that show False
      by fastforce
  qed
  have "map_get 0 d' x = map_get 0 d x - int (count_list (n # ns) x)" for x
    using final [of x] by (simp add: d1)
  moreover have "set q' = set q \<union> {y \<in> set (n # ns). map_get 0 d' y = 0}"
  proof -
    have "set q' = set q1 \<union> {y \<in> set ns. map_get 0 d' y = 0}"
      using IH by blast
    moreover have "set q1 \<union> {y \<in> set ns. map_get 0 d' y = 0}
                     = set q \<union> {y \<in> set (n # ns). map_get 0 d' y = 0}"
    proof (cases "map_get 0 d1 n = 0")
      case True
      with pushed have "n \<notin> set ns"
        by simp
      then have "map_get 0 d' n = 0"
        using final [of n] True by simp
      with True show ?thesis
        by (auto simp: q1_def)
    next
      case False
      have "n \<in> set ns" if "map_get 0 d' n = 0"
      proof (rule ccontr)
        assume "n \<notin> set ns"
        then have "map_get 0 d' n = map_get 0 d1 n"
          using final [of n] by simp
        with that False show False by simp
      qed
      with False show ?thesis
        by (auto simp: q1_def)
    qed
    ultimately show ?thesis by simp
  qed
  moreover have "distinct q'" if "distinct q" and "set q \<inter> set (n # ns) = {}"
  proof -
    have "distinct q1" and "set q1 \<inter> set ns = {}"
      using that pushed by (auto simp: q1_def)
    with IH show ?thesis by blast
  qed
  ultimately show ?case by blast
qed



lemma relax_keys:
  assumes "relax ns (d, q) = (d', q')" and "set ns \<subseteq> set (map fst d)"
  shows "map fst d' = map fst d"
  using assms
proof (induction ns arbitrary: d q)
  case Nil
  then show ?case by simp
next
  case (Cons n ns)
  define d1 where "d1 = AList.update n (map_get 0 d n - 1) d"
  define q1 where "q1 = (if map_get 0 d1 n = 0 then q @ [n] else q)"
  have unfold_relax: "relax (n # ns) (d, q) = relax ns (d1, q1)"
    unfolding d1_def q1_def by (simp add: Let_def)
  have rest: "relax ns (d1, q1) = (d', q')"
    unfolding unfold_relax [symmetric] by (rule Cons.prems(1))
  from Cons.prems(2) have keys: "map fst d1 = map fst d"
    by (auto simp: d1_def update_keys)
  with Cons.prems(2) have "set ns \<subseteq> set (map fst d1)"
    by simp
  from Cons.IH [OF rest this] keys show ?case
    by simp
qed

text \<open>One turn of the outer loop keeps the invariant.\<close>

lemma kahn_ids_step:
  assumes inv: "kahn_ids_inv entries ids (node # rest) d done"
    and adj: "\<forall>y x. count_list (map_get [] adj y) x = count_list (entries x) y"
    and owners: "\<forall>x. entries x \<noteq> [] \<longrightarrow> x \<in> ids"
    and relax: "relax (map_get [] adj node) (d, rest) = (d', q')"
  shows "kahn_ids_inv entries ids q' d' (done @ [node])"
proof -
  define ns where "ns = map_get [] adj node"
  define finished where "finished = set done"
  from inv have dist: "distinct (done @ node # rest)"
    and qsub: "set (node # rest) \<subseteq> ids"
    and osub: "set done \<subseteq> ids"
    and deg: "\<And>x. map_get 0 d x = int (length (filter (\<lambda>y. y \<notin> finished) (entries x)))"
    and ready: "\<And>x. x \<in> ids \<Longrightarrow> map_get 0 d x = 0 \<Longrightarrow> x \<in> finished \<union> set (node # rest)"
    and zero: "\<And>x. x \<in> set (node # rest) \<Longrightarrow> map_get 0 d x = 0"
    and ord: "\<And>j. j < length done \<Longrightarrow> set (entries (done ! j)) \<subseteq> set (take j done)"
    unfolding kahn_ids_inv_def finished_def by blast+
  from dist have fresh: "node \<notin> finished" "node \<notin> set rest" "distinct rest"
    and apart: "finished \<inter> set rest = {}" and dist_done: "distinct done"
    by (auto simp: finished_def)
  have cnt: "count_list ns x = count_list (entries x) node" for x
    using adj by (simp add: ns_def)
  have le: "int (count_list ns x) \<le> map_get 0 d x" for x
    using count_le_filter [of "\<lambda>y. y \<notin> finished" node "entries x"] fresh(1)
    by (simp add: cnt deg)
  have in_ns: "node \<in> set (entries x)" if "x \<in> set ns" for x
    using that count_list_0_iff [of ns x] count_list_0_iff [of "entries x" node] cnt [of x]
    by auto
  have ns_pos: "0 < map_get 0 d x" if "x \<in> set ns" for x
    using that le [of x] count_list_0_iff [of ns x] by (cases "count_list ns x") auto
  have ns_fresh: "x \<notin> finished \<and> x \<noteq> node \<and> x \<notin> set rest" if "x \<in> set ns" for x
  proof (intro conjI notI)
    assume "x \<in> finished"
    then obtain j where "j < length done" and "done ! j = x"
      by (auto simp: finished_def in_set_conv_nth)
    with ord [of j] in_ns [OF that] have "node \<in> set (take j done)"
      by auto
    then have "node \<in> finished"
      by (auto simp: finished_def dest: in_set_takeD)
    with fresh(1) show False by simp
  next
    assume "x = node"
    with ns_pos [OF that] zero [of node] show False by simp
  next
    assume "x \<in> set rest"
    with ns_pos [OF that] zero [of x] show False by simp
  qed
  have ns_ids: "set ns \<subseteq> ids"
  proof
    fix x assume "x \<in> set ns"
    from in_ns [OF this] have "entries x \<noteq> []"
      by auto
    with owners show "x \<in> ids"
      by blast
  qed
  from relax have relax': "relax ns (d, rest) = (d', q')"
    by (simp add: ns_def)
  from le have "\<forall>x\<in>set ns. int (count_list ns x) \<le> map_get 0 d x"
    by simp
  from relax_spec [OF relax' this]
  have d': "\<And>x. map_get 0 d' x = map_get 0 d x - int (count_list ns x)"
    and q': "set q' = set rest \<union> {y \<in> set ns. map_get 0 d' y = 0}"
    and dq': "distinct rest \<Longrightarrow> set rest \<inter> set ns = {} \<Longrightarrow> distinct q'"
    by blast+
  have "set rest \<inter> set ns = {}"
    using ns_fresh by blast
  with dq' fresh(3) have dist_q': "distinct q'"
    by simp
  have finished': "set (done @ [node]) = insert node finished"
    by (simp add: finished_def)
  have deg': "map_get 0 d' x
      = int (length (filter (\<lambda>y. y \<notin> insert node finished) (entries x)))" for x
    using filter_insert_count [OF fresh(1), of "entries x"] d' [of x]
    by (simp add: deg cnt)
  have 1: "distinct ((done @ [node]) @ q')"
    using dist_done dist_q' fresh apart ns_fresh q'
    by (auto simp: finished_def)
  have 2: "set q' \<subseteq> ids"
    using q' qsub ns_ids by auto
  have 3: "insert node finished \<subseteq> ids"
    using osub qsub by (auto simp: finished_def)
  have 5: "x \<in> insert node finished \<union> set q'"
    if "x \<in> ids" and "map_get 0 d' x = 0" for x
  proof (cases "x \<in> set ns")
    case True
    with that(2) q' show ?thesis by simp
  next
    case False
    then have "map_get 0 d x = 0"
      using d' [of x] that(2) count_list_0_iff [of ns x] by simp
    from ready [OF that(1) this] q' show ?thesis
      by auto
  qed
  have 6: "map_get 0 d' x = 0" if "x \<in> set q'" for x
  proof (cases "x \<in> set ns")
    case True
    with that q' ns_fresh [OF True] show ?thesis by simp
  next
    case False
    with that q' have "x \<in> set rest"
      by simp
    with zero [of x] d' [of x] False count_list_0_iff [of ns x] show ?thesis
      by simp
  qed
  have 7: "set (entries ((done @ [node]) ! j)) \<subseteq> set (take j (done @ [node]))"
    if "j < length (done @ [node])" for j
  proof (cases "j < length done")
    case True
    with ord [OF True] show ?thesis
      by (simp add: nth_append)
  next
    case False
    with that have j: "j = length done"
      by simp
    have "filter (\<lambda>y. y \<notin> finished) (entries node) = []"
      using zero [of node] deg [of node] by simp
    then have "set (entries node) \<subseteq> finished"
      by (auto simp: filter_empty_conv)
    then show ?thesis
      by (simp add: j finished_def)
  qed
  show ?thesis
    unfolding kahn_ids_inv_def finished'
    using 1 2 3 deg' 5 6 7 by blast
qed

text \<open>
  When the queue is empty, the nodes taken from it are the nodes that can be freed at
  all, whatever the order in which the queue was served.
\<close>

lemma kahn_ids_final:
  assumes inv: "kahn_ids_inv entries ids [] d done"
  shows "set done = free_nodes entries ids"
proof
  have "done ! j \<in> free_nodes entries ids" if "j < length done" for j
    using that
  proof (induction j rule: less_induct)
    case (less j)
    from inv less.prems have member: "done ! j \<in> ids"
      and sub: "set (entries (done ! j)) \<subseteq> set (take j done)"
      unfolding kahn_ids_inv_def by (blast intro: nth_mem)+
    show ?case
    proof (rule free_nodes.intros [OF member])
      fix y assume "y \<in> set (entries (done ! j))"
      with sub have "y \<in> set (take j done)"
        by blast
      then obtain i where "i < j" "i < length done" "done ! i = y"
        by (auto simp: in_set_conv_nth)
      with less.IH [of i] show "y \<in> free_nodes entries ids"
        by auto
    qed
  qed
  then show "set done \<subseteq> free_nodes entries ids"
    by (auto simp: in_set_conv_nth)
next
  show "free_nodes entries ids \<subseteq> set done"
  proof
    fix x assume "x \<in> free_nodes entries ids"
    then show "x \<in> set done"
    proof (induction rule: free_nodes.induct)
      case (1 x)
      then have "filter (\<lambda>y. y \<notin> set done) (entries x) = []"
        by (auto simp: filter_empty_conv)
      with inv have "map_get 0 d x = 0"
        by (simp add: kahn_ids_inv_def)
      with inv 1(1) show ?case
        by (auto simp: kahn_ids_inv_def)
    qed
  qed
qed

text \<open>The index of the tasks.\<close>

lemma index_tasks_frame:
  "x \<notin> TaskID ` set ts \<Longrightarrow> map_of (index_tasks k ts m) x = map_of m x"
  by (induction ts arbitrary: k m) (auto simp: update_conv')

lemma index_tasks_lookup:
  "x \<in> TaskID ` set ts \<Longrightarrow>
     \<exists>i<length ts. map_of (index_tasks k ts m) x = Some (k + i) \<and> TaskID (ts ! i) = x"
proof (induction ts arbitrary: k m)
  case Nil
  then show ?case by simp
next
  case (Cons t ts)
  show ?case
  proof (cases "x \<in> TaskID ` set ts")
    case True
    from Cons.IH [OF True, of "Suc k" "AList.update (TaskID t) k m"]
    obtain i where "i < length ts"
      and "map_of (index_tasks (Suc k) ts (AList.update (TaskID t) k m)) x = Some (Suc k + i)"
      and "TaskID (ts ! i) = x"
      by blast
    then show ?thesis
      by (intro exI [of _ "Suc i"]) simp
  next
    case False
    with Cons.prems have "x = TaskID t"
      by simp
    with False show ?thesis
      by (intro exI [of _ 0]) (simp add: index_tasks_frame update_conv')
  qed
qed

lemma index_tasks_None:
  "x \<notin> TaskID ` set ts \<Longrightarrow> map_of (index_tasks 0 ts []) x = None"
  by (simp add: index_tasks_frame)

lemma index_tasks_valid:
  "\<forall>x\<in>TaskID ` set tasks. map_get 0 (index_tasks 0 tasks []) x < length tasks
     \<and> TaskID (tasks ! map_get 0 (index_tasks 0 tasks []) x) = x"
proof
  fix x assume "x \<in> TaskID ` set tasks"
  from index_tasks_lookup [OF this, of 0 "[]"] show
    "map_get 0 (index_tasks 0 tasks []) x < length tasks
     \<and> TaskID (tasks ! map_get 0 (index_tasks 0 tasks []) x) = x"
    by (auto simp: map_get_def)
qed


lemma index_tasks_known:
  "map_of (index_tasks 0 tasks []) x \<noteq> None \<longleftrightarrow> x \<in> TaskID ` set tasks"
proof (cases "x \<in> TaskID ` set tasks")
  case True
  from index_tasks_lookup [OF True, of 0 "[]"] True show ?thesis
    by auto
next
  case False
  from index_tasks_None [OF False] False show ?thesis
    by simp
qed

lemma known_entries_owner:
  assumes "known_entries taskIndex tasks x \<noteq> []"
  shows "x \<in> TaskID ` set tasks"
proof -
  from assms obtain y where "y \<in> set (known_entries taskIndex tasks x)"
    by (cases "known_entries taskIndex tasks x") auto
  then show ?thesis
    by (auto simp: set_known_entries)
qed

lemma topo_loop_invariant:
  assumes "\<forall>y x. count_list (map_get [] adj y) x = count_list (entries x) y"
    and "\<forall>x. entries x \<noteq> [] \<longrightarrow> x \<in> TaskID ` set tasks"
    and "\<forall>x\<in>TaskID ` set tasks. map_get 0 taskIndex x < length tasks
           \<and> TaskID (tasks ! map_get 0 taskIndex x) = x"
    and "kahn_ids_inv entries (TaskID ` set tasks) (fst st) (fst (snd st))
           (map TaskID (snd (snd st)))"
  shows "\<exists>ordered d. topo_loop tasks taskIndex adj st = Some ordered
           \<and> kahn_ids_inv entries (TaskID ` set tasks) [] d (map TaskID ordered)"
  using assms
proof (induction tasks taskIndex adj st rule: topo_loop.induct)
  case (1 tasks taskIndex adj queue inDegree ordered)
  show ?case
  proof (cases queue)
    case Nil
    with "1.prems"(4) show ?thesis
      by (subst topo_loop.simps) auto
  next
    case (Cons node rest)
    obtain d' q' where relax: "relax (map_get [] adj node) (inDegree, rest) = (d', q')"
      by (cases "relax (map_get [] adj node) (inDegree, rest)")
    from "1.prems"(4)
    have inv: "kahn_ids_inv entries (TaskID ` set tasks) (node # rest) inDegree (map TaskID ordered)"
      by (simp add: Cons)
    then have "node \<in> TaskID ` set tasks"
      by (simp add: kahn_ids_inv_def)
    with "1.prems"(3) have lt: "map_get 0 taskIndex node < length tasks"
      and tid: "TaskID (tasks ! map_get 0 taskIndex node) = node"
      by auto
    from kahn_ids_step [OF inv "1.prems"(1,2) relax] tid
    have inv': "kahn_ids_inv entries (TaskID ` set tasks) q' d'
                  (map TaskID (ordered @ [tasks ! map_get 0 taskIndex node]))"
      by simp
    from "1.IH" [OF Cons refl lt relax [symmetric] "1.prems"(1,2,3)] inv'
    obtain final d where
      "topo_loop tasks taskIndex adj (q', d', ordered @ [tasks ! map_get 0 taskIndex node])
         = Some final"
      and "kahn_ids_inv entries (TaskID ` set tasks) [] d (map TaskID final)"
      by auto
    then show ?thesis
      using lt relax by (subst topo_loop.simps) (auto simp: Cons)
  qed
qed

lemma init_degrees_zero:
  assumes "init_degrees ts (adj, inDegree) = (adj', inDegree')"
    and "\<forall>x. map_get [] adj x = []" and "\<forall>x. map_get 0 inDegree x = 0"
  shows "(\<forall>x. map_get [] adj' x = []) \<and> (\<forall>x. map_get 0 inDegree' x = 0)"
  using assms
  by (induction ts arbitrary: adj inDegree) (auto simp: map_get_update)

text \<open>
  What the sort returns on a graph whose identifiers are distinct: the invariant holds
  of the identifiers of the tasks returned, with an empty queue.
\<close>

lemma topologicalSort_invariant:
  assumes dist: "distinct (map TaskID (Tasks graph))"
  shows "\<exists>ordered d. topologicalSort graph = Some ordered
           \<and> kahn_ids_inv (known_entries (index_tasks 0 (Tasks graph) []) (Tasks graph))
                 (TaskID ` set (Tasks graph)) [] d (map TaskID ordered)"
proof -
  define tasks where "tasks = Tasks graph"
  define taskIndex where "taskIndex = index_tasks 0 tasks []"
  define entries where "entries = known_entries taskIndex tasks"
  obtain adj0 deg0 where init: "init_degrees tasks ([], []) = (adj0, deg0)"
    by (cases "init_degrees tasks ([], [])")
  obtain adj inDegree where edges: "add_edges tasks taskIndex (adj0, deg0) = (adj, inDegree)"
    by (cases "add_edges tasks taskIndex (adj0, deg0)")
  from init_degrees_zero [OF init]
  have zero: "\<And>x. map_get [] adj0 x = []" "\<And>x. map_get 0 deg0 x = 0"
    by (simp_all add: map_get_Nil)
  from add_edges_spec [OF edges]
  have deg: "\<And>x. map_get 0 inDegree x = int (length (entries x))"
    and adj: "\<forall>y x. count_list (map_get [] adj y) x = count_list (entries x) y"
    by (simp_all add: zero entries_def)
  have owners: "\<forall>x. entries x \<noteq> [] \<longrightarrow> x \<in> TaskID ` set tasks"
    by (auto simp: entries_def dest: known_entries_owner)
  define queue where "queue = seed_queue tasks inDegree"
  have queue: "queue = filter (\<lambda>x. map_get 0 inDegree x = 0) (map TaskID tasks)"
    by (simp add: queue_def seed_queue_filter)
  have "kahn_ids_inv entries (TaskID ` set tasks) queue inDegree (map TaskID [])"
    unfolding kahn_ids_inv_def using dist by (auto simp: queue deg tasks_def)
  then have "kahn_ids_inv entries (TaskID ` set tasks) (fst (queue, inDegree, []))
               (fst (snd (queue, inDegree, []))) (map TaskID (snd (snd (queue, inDegree, []))))"
    by simp
  from topo_loop_invariant [OF adj owners _ this, of taskIndex] index_tasks_valid [of tasks]
  obtain ordered d where "topo_loop tasks taskIndex adj (queue, inDegree, []) = Some ordered"
    and "kahn_ids_inv entries (TaskID ` set tasks) [] d (map TaskID ordered)"
    by (auto simp: taskIndex_def)
  moreover have "topologicalSort graph = topo_loop tasks taskIndex adj (queue, inDegree, [])"
    unfolding topologicalSort_def Let_def tasks_def [symmetric] taskIndex_def [symmetric]
      init edges
    by (simp add: queue_def del: topo_loop.simps)
  ultimately show ?thesis
    by (auto simp: tasks_def entries_def taskIndex_def)
qed

lemma depends_on_iff:
  "(x, y) \<in> depends_on graph \<longleftrightarrow> (\<exists>t\<in>set (Tasks graph). TaskID t = x \<and> y \<in> set (dependencies t))"
  by (auto simp: depends_on_def)

text \<open>On an acyclic relation every task can be freed.\<close>

lemma acyclic_all_free:
  assumes acyclic: "acyclic (depends_on graph)"
    and x: "x \<in> TaskID ` set (Tasks graph)"
  shows "x \<in> free_nodes (known_entries (index_tasks 0 (Tasks graph) []) (Tasks graph))
           (TaskID ` set (Tasks graph))"
proof -
  have "finite (depends_on graph)"
    by (simp add: depends_on_def)
  with acyclic have "wf ((depends_on graph)\<inverse>)"
    by (simp add: finite_acyclic_wf_converse)
  then show ?thesis
    using x
  proof (induction x rule: wf_induct_rule)
    case (less x)
    show ?case
    proof (rule free_nodes.intros [OF less.prems])
      fix y
      assume "y \<in> set (known_entries (index_tasks 0 (Tasks graph) []) (Tasks graph) x)"
      then have "(x, y) \<in> depends_on graph" and "y \<in> TaskID ` set (Tasks graph)"
        using index_tasks_known [of "Tasks graph" y]
        by (auto simp: set_known_entries depends_on_iff)
      with less.IH [of y] show "y \<in> free_nodes
          (known_entries (index_tasks 0 (Tasks graph) []) (Tasks graph)) (TaskID ` set (Tasks graph))"
        by simp
    qed
  qed
qed

lemma dep_cmds_types: "\<forall>cmd\<in>set (dep_cmds ordered). cmd_Type cmd = ''dep-add''"
  by (induction ordered) (auto simp: dep_add_cmd_def split: sum.splits)

lemma update_cmds_types:
  "update_cmds marshal ordered = Inr updates \<Longrightarrow>
     \<forall>cmd\<in>set updates. cmd_Type cmd = ''update-design''"
  by (induction ordered arbitrary: updates)
     (auto simp: update_design_cmd_def split: sum.splits)

lemma creates_at_positions:
  assumes "cmds = epic_command c graph # map (create_task_cmd c parent) ordered @ rest"
    and "\<forall>cmd\<in>set rest. cmd_Type cmd \<noteq> ''create-task''"
  shows "creates_at cmds i x \<longleftrightarrow> (\<exists>k<length ordered. i = Suc k \<and> TaskID (ordered ! k) = x)"
proof (cases i)
  case 0
  then show ?thesis
    by (simp add: creates_at_def assms(1) epic_command_def Let_def)
next
  case (Suc k)
  show ?thesis
  proof (cases "k < length ordered")
    case True
    then show ?thesis
      by (simp add: creates_at_def assms(1) Suc nth_append create_task_cmd_def)
  next
    case False
    then have "cmd_Type (cmds ! i) \<noteq> ''create-task''" if "i < length cmds"
      using that assms(2) by (simp add: assms(1) Suc nth_append)
    with False show ?thesis
      by (auto simp: creates_at_def Suc)
  qed
qed

text \<open>
  C1. Let the identifiers of the tasks of a graph be distinct, let every entry of
  every \<open>depends_on\<close> list name a task of the graph, and let the relation between a
  task and its entries be acyclic. Then in the commands that \<open>BuildGraphCommands\<close>
  returns, each task and each entry of its \<open>depends_on\<close> list have a create
  command, and a create command of the entry stands at a smaller index than a create
  command of the task.
\<close>

theorem create_commands_follow_dependencies:
  assumes "distinct (map TaskID (Tasks graph))"
    and "\<forall>t\<in>set (Tasks graph). set (dependencies t) \<subseteq> TaskID ` set (Tasks graph)"
    and "acyclic (depends_on graph)"
    and "BuildGraphCommands c marshal graph = Inr cmds"
    and "t \<in> set (Tasks graph)" and "dep \<in> set (dependencies t)"
  shows "(\<exists>i. creates_at cmds i dep) \<and> (\<exists>j. creates_at cmds j (TaskID t))
         \<and> (\<forall>i j. creates_at cmds i dep \<longrightarrow> creates_at cmds j (TaskID t) \<longrightarrow> i < j)"
proof -
  define entries where
    "entries = known_entries (index_tasks 0 (Tasks graph) []) (Tasks graph)"
  from topologicalSort_invariant [OF assms(1)] obtain ordered d
    where sort: "topologicalSort graph = Some ordered"
      and inv: "kahn_ids_inv entries (TaskID ` set (Tasks graph)) [] d (map TaskID ordered)"
    unfolding entries_def by blast
  from kahn_ids_final [OF inv] acyclic_all_free [OF assms(3)] inv
  have all: "TaskID ` set ordered = TaskID ` set (Tasks graph)"
    unfolding entries_def kahn_ids_inv_def by auto
  from inv have dist: "distinct (map TaskID ordered)"
    by (simp add: kahn_ids_inv_def)
  have ord: "set (entries (TaskID (ordered ! j))) \<subseteq> TaskID ` set (take j ordered)"
    if "j < length ordered" for j
  proof -
    from inv that have "set (entries (map TaskID ordered ! j)) \<subseteq> set (take j (map TaskID ordered))"
      unfolding kahn_ids_inv_def by simp
    with that show ?thesis
      by (simp add: take_map)
  qed
  from assms(4) sort obtain updates
    where ups: "update_cmds marshal ordered = Inr updates"
      and cmds: "cmds = epic_command c graph # map (create_task_cmd c ''<epic-id>'') ordered
                   @ (dep_cmds ordered @ updates)"
    by (auto simp: BuildGraphCommands_def split: sum.splits)
  have "\<forall>cmd\<in>set (dep_cmds ordered @ updates). cmd_Type cmd \<noteq> ''create-task''"
    using dep_cmds_types [of ordered] update_cmds_types [OF ups] by auto
  note pos = creates_at_positions [OF cmds this]
  from assms(5) all have "TaskID t \<in> TaskID ` set ordered"
    by blast
  then obtain j where j: "j < length ordered" "TaskID (ordered ! j) = TaskID t"
    by (auto simp: in_set_conv_nth)
  from assms(2,5,6) have "dep \<in> TaskID ` set (Tasks graph)"
    by auto
  with assms(5,6) index_tasks_known [of "Tasks graph" dep]
  have "dep \<in> set (entries (TaskID t))"
    by (auto simp: entries_def set_known_entries)
  with ord [OF j(1)] j(2) have "dep \<in> TaskID ` set (take j ordered)"
    by auto
  then obtain i where i: "i < j" "TaskID (ordered ! i) = dep"
    by (auto simp: in_set_conv_nth)
  have unique: "k = k'" if "k < length ordered" "k' < length ordered"
    "TaskID (ordered ! k) = TaskID (ordered ! k')" for k k'
    using that dist nth_eq_iff_index_eq [of "map TaskID ordered" k k'] by simp
  have "creates_at cmds (Suc i) dep" and "creates_at cmds (Suc j) (TaskID t)"
    using i j by (auto simp: pos)
  moreover have "i' < j'" if "creates_at cmds i' dep" and "creates_at cmds j' (TaskID t)" for i' j'
  proof -
    from that obtain k k' where "k < length ordered" "i' = Suc k" "TaskID (ordered ! k) = dep"
      and "k' < length ordered" "j' = Suc k'" "TaskID (ordered ! k') = TaskID t"
      by (auto simp: pos)
    with unique [of k i] unique [of k' j] i j show ?thesis
      by simp
  qed
  ultimately show ?thesis by blast
qed

lemma depends_on_graph_ab: "depends_on graph_ab = {(''task-b'', ''task-a'')}"
  by (simp add: depends_on_def graph_ab_def example_task_def dependencies_def ParseDependsOn_def
      slice_elems_def)

theorem create_commands_follow_dependencies_witness:
  "distinct (map TaskID (Tasks graph_ab))
   \<and> acyclic (depends_on graph_ab)
   \<and> map TaskID (Tasks graph_ab) = [''task-b'', ''task-a'']
   \<and> dependencies (Tasks graph_ab ! 0) = [''task-a'']
   \<and> creates_at cmds_ab 1 ''task-a'' \<and> creates_at cmds_ab 2 ''task-b''
   \<and> (1::nat) < 2"
proof -
  have ids: "map TaskID (Tasks graph_ab) = [''task-b'', ''task-a'']"
    by (simp add: graph_ab_def example_task_def)
  then have dist: "distinct (map TaskID (Tasks graph_ab))"
    by simp
  have deps: "dependencies (Tasks graph_ab ! 0) = [''task-a'']"
    "dependencies (Tasks graph_ab ! 1) = []"
    by (simp_all add: graph_ab_def example_task_def dependencies_def ParseDependsOn_def
        slice_elems_def)
  have resolved: "\<forall>t\<in>set (Tasks graph_ab). set (dependencies t) \<subseteq> TaskID ` set (Tasks graph_ab)"
    by (simp add: graph_ab_def example_task_def dependencies_def ParseDependsOn_def
        slice_elems_def)
  have "acyclic ({} :: (string \<times> string) set)"
    by (simp add: acyclic_def)
  then have acyc: "acyclic (depends_on graph_ab)"
    by (simp add: depends_on_graph_ab)
  have t: "Tasks graph_ab ! 0 \<in> set (Tasks graph_ab)"
    by (simp add: graph_ab_def)
  have dep: "''task-a'' \<in> set (dependencies (Tasks graph_ab ! 0))"
    by (simp add: deps)
  have tid: "TaskID (Tasks graph_ab ! 0) = ''task-b''"
    by (simp add: graph_ab_def example_task_def)
  have at: "creates_at cmds_ab 1 ''task-a''" "creates_at cmds_ab 2 ''task-b''"
    unfolding cmds_ab_def by code_simp+
  from create_commands_follow_dependencies [OF dist resolved acyc build_graph_ab t dep]
  have "\<forall>i j. creates_at cmds_ab i ''task-a'' \<longrightarrow> creates_at cmds_ab j ''task-b'' \<longrightarrow> i < j"
    by (simp add: tid)
  from this [rule_format, OF at] dist acyc ids deps at
  show ?thesis
    by simp
qed

section \<open>Order of the findings\<close>

text \<open>
  C4 as stated fails, at two inputs. At the graph of two tasks that depend on each
  other: with the map \<open>inDegree\<close> iterated in one order the V5 finding lists
  \<open>task-a, task-b\<close>, in the other order \<open>task-b, task-a\<close>. At a document that the
  schema rejects with two detailed errors: the two SCHEMA findings come in the order in
  which the map of detailed errors is iterated. The bytes and everything else are the
  same in both runs.
\<close>

theorem findings_follow_map_order:
  "map Context (errors_with_rule ''V5''
      (projr (Validate (example_env document_order graph_cyclic) ''graph_cyclic'' 1)))
     = [''task-a, task-b'']
   \<and> map Context (errors_with_rule ''V5''
      (projr (Validate (example_env reverse_order graph_cyclic) ''graph_cyclic'' 1)))
     = [''task-b, task-a'']
   \<and> Validate (example_env document_order graph_cyclic) ''graph_cyclic'' 1
       \<noteq> Validate (example_env reverse_order graph_cyclic) ''graph_cyclic'' 1
   \<and> map Path (Errors (projr (Validate rejecting_env ''graph_ab'' 1)))
       = [''/tasks/0/task_id/pattern'', ''$'']
   \<and> map Path (Errors (projr
         (Validate (rejecting_env\<lparr>range_order := reverse_order\<rparr>) ''graph_ab'' 1)))
       = [''$'', ''/tasks/0/task_id/pattern'']"
  by code_simp

text \<open>What holds instead. First the two maps of the cycle check.\<close>

lemma init_degrees_once_spec:
  assumes "init_degrees_once ts (adj, inDegree) = (adj', inDegree')"
    and "\<forall>x. map_get [] adj x = []" and "\<forall>x. map_get 0 inDegree x = 0"
    and "distinct (map fst inDegree)"
  shows "(\<forall>x. map_get [] adj' x = []) \<and> (\<forall>x. map_get 0 inDegree' x = 0)
         \<and> distinct (map fst inDegree')
         \<and> set (map fst inDegree') = set (map fst inDegree) \<union> TaskID ` set ts"
  using assms
proof (induction ts arbitrary: adj inDegree)
  case Nil
  then show ?case by simp
next
  case (Cons t ts)
  define adj1 where "adj1 = (if map_of adj (TaskID t) = None then AList.update (TaskID t) [] adj else adj)"
  define deg1 where "deg1 = (if map_of inDegree (TaskID t) = None
                             then AList.update (TaskID t) 0 inDegree else inDegree)"
  from Cons.prems(1) have run: "init_degrees_once ts (adj1, deg1) = (adj', inDegree')"
    by (simp add: adj1_def deg1_def)
  have a: "\<forall>x. map_get [] adj1 x = []"
    using Cons.prems(2) by (simp add: adj1_def map_get_update)
  have d: "\<forall>x. map_get 0 deg1 x = 0"
    using Cons.prems(3) by (simp add: deg1_def map_get_update)
  have dist: "distinct (map fst deg1)"
    using Cons.prems(4) by (simp add: deg1_def distinct_update)
  have keys: "set (map fst deg1) = insert (TaskID t) (set (map fst inDegree))"
    by (auto simp: deg1_def dom_update map_of_eq_None_iff)
  from Cons.IH [OF run a d dist] keys show ?case
    by auto
qed

lemma map_filter_keys:
  assumes "set ks \<subseteq> fst ` set m"
  shows "map fst (filter (\<lambda>(k, v). P v)
           (List.map_filter (\<lambda>k. map_option (Pair k) (map_of m k)) ks))
         = filter (\<lambda>k. P (map_get z m k)) ks"
  using assms
proof (induction ks)
  case Nil
  then show ?case by simp
next
  case (Cons k ks)
  from Cons.prems obtain v where "map_of m k = Some v"
    by (cases "map_of m k") (auto simp: map_of_eq_None_iff)
  with Cons show ?case
    by (simp add: map_get_def)
qed

lemma range_map_keys:
  assumes "mset (order (map fst m)) = mset (map fst m)"
  shows "map fst (filter (\<lambda>(k, v). P v) (range_map order m))
         = filter (\<lambda>k. P (map_get z m k)) (order (map fst m))"
proof -
  from assms have "set (order (map fst m)) = set (map fst m)"
    by (rule mset_eq_setD)
  then have "set (order (map fst m)) \<subseteq> fst ` set m"
    by simp
  then show ?thesis
    unfolding range_map_def by (rule map_filter_keys)
qed

lemma dag_loop_invariant:
  assumes "\<forall>y x. count_list (map_get [] adj y) x = count_list (entries x) y"
    and "\<forall>x. entries x \<noteq> [] \<longrightarrow> x \<in> ids"
    and "kahn_ids_inv entries ids (fst st) (fst (snd st)) done"
    and "ids \<subseteq> set (map fst (fst (snd st)))"
    and "snd (snd st) = length done"
  shows "\<exists>d' done'. dag_loop adj st = (d', length done')
           \<and> kahn_ids_inv entries ids [] d' done'
           \<and> map fst d' = map fst (fst (snd st))"
  using assms
proof (induction adj st arbitrary: "done" rule: dag_loop.induct)
  case (1 adj queue inDegree visited)
  show ?case
  proof (cases queue)
    case Nil
    with "1.prems"(3,5) show ?thesis
      by (subst dag_loop.simps) auto
  next
    case (Cons node rest)
    obtain d1 q1 where relax: "relax (map_get [] adj node) (inDegree, rest) = (d1, q1)"
      by (cases "relax (map_get [] adj node) (inDegree, rest)")
    from "1.prems"(3)
    have inv: "kahn_ids_inv entries ids (node # rest) inDegree done"
      by (simp add: Cons)
    from kahn_ids_step [OF inv "1.prems"(1,2) relax]
    have inv1: "kahn_ids_inv entries ids q1 d1 (done @ [node])" .
    have "set (map_get [] adj node) \<subseteq> set (map fst inDegree)"
    proof
      fix x assume "x \<in> set (map_get [] adj node)"
      then have "0 < count_list (map_get [] adj node) x"
        using count_list_0_iff [of "map_get [] adj node" x] by auto
      with "1.prems"(1) have "0 < count_list (entries x) node"
        by simp
      then have "entries x \<noteq> []"
        by auto
      with "1.prems"(2,4) show "x \<in> set (map fst inDegree)"
        by auto
    qed
    from relax_keys [OF relax this] have keys: "map fst d1 = map fst inDegree" .
    have "\<exists>d' done'. dag_loop adj (q1, d1, visited + 1) = (d', length done')
           \<and> kahn_ids_inv entries ids [] d' done'
           \<and> map fst d' = map fst (fst (snd (q1, d1, visited + 1)))"
    proof (rule "1.IH" [OF Cons relax [symmetric] "1.prems"(1,2), of "done @ [node]"])
      show "kahn_ids_inv entries ids (fst (q1, d1, visited + 1))
              (fst (snd (q1, d1, visited + 1))) (done @ [node])"
        using inv1 by simp
      show "ids \<subseteq> set (map fst (fst (snd (q1, d1, visited + 1))))"
        using "1.prems"(4) keys by simp
      show "snd (snd (q1, d1, visited + 1)) = length (done @ [node])"
        using "1.prems"(5) by simp
    qed
    moreover have "dag_loop adj (queue, inDegree, visited) = dag_loop adj (q1, d1, visited + 1)"
      by (subst dag_loop.simps) (simp add: Cons relax del: dag_loop.simps)
    ultimately show ?thesis
      using keys by (simp del: dag_loop.simps)
  qed
qed

text \<open>
  The cycle check, whatever the order of the two iterations over the map: it adds one
  finding when fewer nodes can be freed than there are tasks, and the finding lists the
  identifiers that keep an entry that is never freed.
\<close>

lemma checkDAGAcyclicity_spec:
  fixes graph taskIndex
  defines "entries \<equiv> known_entries taskIndex (Tasks graph)"
    and "ids \<equiv> TaskID ` set (Tasks graph)"
  assumes perm: "\<forall>i ks. mset (order i ks) = mset ks"
  shows "\<exists>ms. mset ms = filter_mset (\<lambda>k. filter (\<lambda>y. y \<notin> free_nodes entries ids) (entries k) \<noteq> [])
                          (mset_set ids)
           \<and> (\<forall>result. checkDAGAcyclicity order graph taskIndex result
                 = (if card (free_nodes entries ids) < length (Tasks graph)
                    then AddError result (cycle_error ms) else result))"
proof -
  obtain adj0 deg0 where init: "init_degrees_once (Tasks graph) ([], []) = (adj0, deg0)"
    by (cases "init_degrees_once (Tasks graph) ([], [])")
  obtain adj inDegree where edges: "add_edges (Tasks graph) taskIndex (adj0, deg0) = (adj, inDegree)"
    by (cases "add_edges (Tasks graph) taskIndex (adj0, deg0)")
  from init_degrees_once_spec [OF init]
  have zero: "\<And>x. map_get [] adj0 x = []" "\<And>x. map_get 0 deg0 x = 0"
    and dist0: "distinct (map fst deg0)" and keys0: "set (map fst deg0) = ids"
    by (simp_all add: map_get_Nil ids_def)
  from add_edges_spec [OF edges] keys0
  have deg: "\<And>x. map_get 0 inDegree x = int (length (entries x))"
    and adj: "\<forall>y x. count_list (map_get [] adj y) x = count_list (entries x) y"
    and keys: "map fst inDegree = map fst deg0"
    by (simp_all add: zero entries_def ids_def)
  have owners: "\<forall>x. entries x \<noteq> [] \<longrightarrow> x \<in> ids"
    by (auto simp: entries_def ids_def dest: known_entries_owner)
  define queue where
    "queue = map fst (filter (\<lambda>(k, deg). deg = 0) (range_map (order 1) inDegree))"
  from perm have p1: "mset (order 1 (map fst inDegree)) = mset (map fst inDegree)"
    by simp
  have queue: "queue = filter (\<lambda>k. map_get 0 inDegree k = 0) (order 1 (map fst inDegree))"
    unfolding queue_def
    by (rule range_map_keys [where order = "order 1" and m = inDegree and z = 0
          and P = "\<lambda>deg. deg = 0", OF p1])
  from p1 dist0 keys have d1: "distinct (order 1 (map fst inDegree))"
    using mset_eq_imp_distinct_iff by metis
  from p1 keys keys0 have s1: "set (order 1 (map fst inDegree)) = ids"
    using mset_eq_setD by metis
  have "kahn_ids_inv entries ids queue inDegree []"
    unfolding kahn_ids_inv_def using d1 s1 by (auto simp: queue deg)
  then have "kahn_ids_inv entries ids (fst (queue, inDegree, 0 :: nat))
               (fst (snd (queue, inDegree, 0 :: nat))) []"
    by simp
  from dag_loop_invariant [OF adj owners this] keys keys0
  obtain d' done' where loop: "dag_loop adj (queue, inDegree, 0) = (d', length done')"
    and inv: "kahn_ids_inv entries ids [] d' done'"
    and keys': "map fst d' = map fst inDegree"
    by auto
  from kahn_ids_final [OF inv] have done': "set done' = free_nodes entries ids" .
  from inv have "distinct done'"
    by (simp add: kahn_ids_inv_def)
  with done' have visited: "length done' = card (free_nodes entries ids)"
    using distinct_card [of done'] by simp
  from inv done'
  have deg': "\<And>x. map_get 0 d' x
                = int (length (filter (\<lambda>y. y \<notin> free_nodes entries ids) (entries x)))"
    by (simp add: kahn_ids_inv_def)
  define ms where "ms = map fst (filter (\<lambda>(k, deg). deg > 0) (range_map (order 2) d'))"
  from perm have p2: "mset (order 2 (map fst d')) = mset (map fst d')"
    by simp
  have "ms = filter (\<lambda>k. map_get 0 d' k > 0) (order 2 (map fst d'))"
    unfolding ms_def
    by (rule range_map_keys [where order = "order 2" and m = d' and z = 0
          and P = "\<lambda>deg. deg > 0", OF p2])
  then have "mset ms = filter_mset (\<lambda>k. map_get 0 d' k > 0) (mset (map fst d'))"
    using p2 by simp
  moreover have "mset (map fst d') = mset_set ids"
    using dist0 keys0 keys keys' mset_set_set [of "map fst deg0"] by simp
  ultimately have members: "mset ms
      = filter_mset (\<lambda>k. filter (\<lambda>y. y \<notin> free_nodes entries ids) (entries k) \<noteq> []) (mset_set ids)"
    by (simp add: deg')
  have "checkDAGAcyclicity order graph taskIndex result
          = (if card (free_nodes entries ids) < length (Tasks graph)
             then AddError result (cycle_error ms) else result)" for result
    unfolding checkDAGAcyclicity_def init edges Let_def prod.case queue_def [symmetric] loop
      ms_def [symmetric] visited
    by (rule refl)
  with members show ?thesis
    by blast
qed

lemma same_finding_refl: "same_finding e e"
  by (simp add: same_finding_def)

lemma same_finding_Severity: "same_finding e e' \<Longrightarrow> Severity e = Severity e'"
  by (auto simp: same_finding_def cycle_error_def)

lemma Stats_AddError:
  "Stats (AddError r e) =
     (case Severity e of
        SeverityError \<Rightarrow> (Stats r)\<lparr>ErrorCount := ErrorCount (Stats r) + 1\<rparr>
      | SeverityWarning \<Rightarrow> (Stats r)\<lparr>WarningCount := WarningCount (Stats r) + 1\<rparr>
      | SeverityInfo \<Rightarrow> (Stats r)\<lparr>InfoCount := InfoCount (Stats r) + 1\<rparr>)"
  by (cases "Severity e") (simp_all add: AddError_def)

lemma results_agree_AddError:
  assumes "results_agree True r s" and "same_finding e e'"
  shows "results_agree True (AddError r e) (AddError s e')"
  using assms same_finding_Severity [OF assms(2)]
  by (cases "Severity e'")
     (simp_all add: results_agree_def Valid_AddError Stats_AddError Graph_AddError Errors_AddError
        list_all2_appendI)

lemma results_agree_foldl:
  "results_agree True r s \<Longrightarrow> results_agree True (foldl AddError r es) (foldl AddError s es)"
  by (induction es arbitrary: r s) (simp_all add: results_agree_AddError same_finding_refl)

lemma results_agree_refl: "results_agree True r r"
  by (simp add: results_agree_def list_all2_refl same_finding_refl)

text \<open>Tier 2 under two orders of iteration.\<close>

lemma ValidateTaskGraph_agree:
  assumes "\<forall>i ks. mset (order i ks) = mset ks" and "\<forall>i ks. mset (order' i ks) = mset ks"
  shows "results_agree True (ValidateTaskGraph order graph r) (ValidateTaskGraph order' graph r)"
proof -
  define taskIndex where "taskIndex = index_tasks 0 (Tasks graph) []"
  define r0 where "r0 = checkDependencyReferences graph taskIndex
    (checkUniqueTaskIDs graph (r\<lparr>Stats := (Stats r)\<lparr>TotalTasks := length (Tasks graph)\<rparr>\<rparr>))"
  define entries where "entries = known_entries taskIndex (Tasks graph)"
  define ids where "ids = TaskID ` set (Tasks graph)"
  from checkDAGAcyclicity_spec [OF assms(1), of taskIndex graph]
  obtain ms where ms: "mset ms
      = filter_mset (\<lambda>k. filter (\<lambda>y. y \<notin> free_nodes entries ids) (entries k) \<noteq> []) (mset_set ids)"
    and run: "checkDAGAcyclicity order graph taskIndex r0
      = (if card (free_nodes entries ids) < length (Tasks graph)
         then AddError r0 (cycle_error ms) else r0)"
    unfolding entries_def ids_def by blast
  from checkDAGAcyclicity_spec [OF assms(2), of taskIndex graph]
  obtain ms' where ms': "mset ms'
      = filter_mset (\<lambda>k. filter (\<lambda>y. y \<notin> free_nodes entries ids) (entries k) \<noteq> []) (mset_set ids)"
    and run': "checkDAGAcyclicity order' graph taskIndex r0
      = (if card (free_nodes entries ids) < length (Tasks graph)
         then AddError r0 (cycle_error ms') else r0)"
    unfolding entries_def ids_def by blast
  from ms ms' have "mset ms = mset ms'"
    by simp
  then have "same_finding (cycle_error ms) (cycle_error ms')"
    unfolding same_finding_def by blast
  then have cycle: "results_agree True (checkDAGAcyclicity order graph taskIndex r0)
                      (checkDAGAcyclicity order' graph taskIndex r0)"
    unfolding run run' by (simp add: results_agree_AddError results_agree_refl)
  from alike_rules_after_cycle_check
    [of "checkDAGAcyclicity order graph taskIndex r0" "checkDAGAcyclicity order' graph taskIndex r0"
        graph taskIndex]
  obtain es where
    "ValidateTaskGraph order graph r
       = foldl AddError (checkDAGAcyclicity order graph taskIndex r0) es"
    "ValidateTaskGraph order' graph r
       = foldl AddError (checkDAGAcyclicity order' graph taskIndex r0) es"
    unfolding alike_def ValidateTaskGraph_def Let_def taskIndex_def [symmetric] r0_def [symmetric]
    by blast
  with results_agree_foldl [OF cycle] show ?thesis
    by simp
qed

lemma tier2_agree:
  assumes "\<forall>i ks. mset (order i ks) = mset ks" and "\<forall>i ks. mset (order' i ks) = mset ks"
  shows "results_agree True (tier2 (env\<lparr>range_order := order\<rparr>) graph r)
           (tier2 (env\<lparr>range_order := order'\<rparr>) graph r)"
  using ValidateTaskGraph_agree [OF assms, of graph r]
  by (auto simp: tier2_def Let_def results_agree_def)

text \<open>Tier 1 under two orders of iteration.\<close>

lemma mset_range_map:
  assumes "mset (order (map fst m)) = mset (map fst m)"
    and "mset (order' (map fst m)) = mset (map fst m)"
  shows "mset (range_map order m) = mset (range_map order' m)"
proof -
  have "mset (List.map_filter f xs)
          = image_mset (the \<circ> f) (filter_mset (\<lambda>x. f x \<noteq> None) (mset xs))"
    for f :: "string \<Rightarrow> (string \<times> 'a) option" and xs
    by (simp add: List.map_filter_def)
  with assms show ?thesis
    by (simp add: range_map_def)
qed

lemma Stats_foldl_AddError:
  "Stats (foldl AddError r es) =
     (Stats r)\<lparr>ErrorCount := ErrorCount (Stats r) + size (filter_mset (\<lambda>e. Severity e = SeverityError) (mset es)),
       WarningCount := WarningCount (Stats r) + size (filter_mset (\<lambda>e. Severity e = SeverityWarning) (mset es)),
       InfoCount := InfoCount (Stats r) + size (filter_mset (\<lambda>e. Severity e = SeverityInfo) (mset es))\<rparr>"
proof (induction es arbitrary: r)
  case Nil
  show ?case by simp
next
  case (Cons e es)
  show ?case
    by (cases "Severity e") (simp_all add: Cons.IH Stats_AddError)
qed

lemma Valid_foldl_mset:
  "Valid (foldl AddError r es) = (Valid r \<and> (\<forall>e\<in>#mset es. Severity e \<noteq> SeverityError))"
  by (simp add: Valid_foldl_AddError)

lemma tier1_agree:
  assumes "\<forall>i ks. mset (order i ks) = mset ks" and "\<forall>i ks. mset (order' i ks) = mset ks"
  shows "results_agree False (tier1 (env\<lparr>range_order := order\<rparr>) data mode)
           (tier1 (env\<lparr>range_order := order'\<rparr>) data mode)"
proof -
  define sr where "sr = (if mode = 0 then node_schema env data else graph_schema env data)"
  define es where "es = map schema_error (range_map (order 0) (DetailedErrors sr))"
  define es' where "es' = map schema_error (range_map (order' 0) (DetailedErrors sr))"
  from assms have "mset es = mset es'"
    unfolding es_def es'_def mset_map
    using mset_range_map [of "order 0" "DetailedErrors sr" "order' 0"] by simp
  then have "results_agree False (foldl AddError new_result es) (foldl AddError new_result es')"
    unfolding results_agree_def Stats_foldl_AddError Valid_foldl_mset
    by (simp add: Graph_foldl_AddError Errors_foldl_AddError)
  moreover have "tier1 (env\<lparr>range_order := order\<rparr>) data mode
      = (if IsValid sr then new_result else foldl AddError new_result es)"
    by (simp add: tier1_def Schema_Validate_def convertSchemaErrors_def sr_def es_def)
  moreover have "tier1 (env\<lparr>range_order := order'\<rparr>) data mode
      = (if IsValid sr then new_result else foldl AddError new_result es')"
    by (simp add: tier1_def Schema_Validate_def convertSchemaErrors_def sr_def es'_def)
  ultimately show ?thesis
    by (simp add: results_agree_def)
qed

text \<open>
  C4, amended. Two runs of \<open>Validate\<close> on the same bytes and mode, which differ only
  in the order in which the Go runtime iterates over maps, both fail with the same
  message or both return a result. The results have the same verdict, statistics and
  graph. When Tier 1 reports findings, the two lists hold the same findings, possibly
  in another order. Otherwise the lists have the same findings in the same order,
  except that the V5 finding of a cycle may list the same identifiers in another order.
\<close>

theorem findings_agree_up_to_map_order:
  assumes "\<forall>i ks. mset (order i ks) = mset ks" and "\<forall>i ks. mset (order' i ks) = mset ks"
  shows "rel_sum (=) (results_agree (Valid (tier1 (env\<lparr>range_order := order\<rparr>) data mode)))
           (Validate (env\<lparr>range_order := order\<rparr>) data mode)
           (Validate (env\<lparr>range_order := order'\<rparr>) data mode)"
proof -
  define t where "t = tier1 (env\<lparr>range_order := order\<rparr>) data mode"
  define t' where "t' = tier1 (env\<lparr>range_order := order'\<rparr>) data mode"
  from tier1_agree [OF assms, of env data mode]
  have first: "results_agree False t t'"
    by (simp add: t_def t'_def)
  then have valid: "Valid t' = Valid t"
    by (simp add: results_agree_def)
  show ?thesis
  proof (cases "Valid t")
    case False
    with first valid show ?thesis
      unfolding Validate_def Let_def t_def [symmetric] t'_def [symmetric]
      by (auto split: option.splits)
  next
    case True
    from first have "mset (Errors t) = mset (Errors t')"
      by (simp add: results_agree_def)
    moreover from True have "Errors t = []"
      unfolding t_def tier1_def Schema_Validate_def convertSchemaErrors_def
      by (cases "range_map (order 0)
            (DetailedErrors (if mode = 0 then node_schema env data else graph_schema env data))")
         (auto simp: new_result_def Errors_foldl_AddError Valid_foldl_AddError schema_error_def
            Let_def split: if_splits prod.splits)
    ultimately have "Errors t' = []"
      by simp
    with \<open>Errors t = []\<close> first have same: "t' = t"
      by (simp add: results_agree_def)
    have second: "results_agree True (tier2 (env\<lparr>range_order := order\<rparr>) graph t)
                    (tier2 (env\<lparr>range_order := order'\<rparr>) graph t)" for graph
      by (rule tier2_agree [OF assms])
    show ?thesis
      unfolding Validate_def Let_def t_def [symmetric] t'_def [symmetric] same
      using True second
      by (auto split: option.splits sum.splits)
  qed
qed

theorem findings_agree_up_to_map_order_witness:
  "(\<forall>i ks. mset (document_order i ks) = mset ks)
   \<and> (\<forall>i ks. mset (reverse_order i ks) = mset ks)
   \<and> rel_sum (=)
       (results_agree (Valid (tier1 (example_env document_order graph_cyclic) ''graph_cyclic'' 1)))
       (Validate (example_env document_order graph_cyclic) ''graph_cyclic'' 1)
       (Validate (example_env reverse_order graph_cyclic) ''graph_cyclic'' 1)"
  using findings_agree_up_to_map_order
    [of document_order reverse_order "example_env document_order graph_cyclic" "''graph_cyclic''" 1]
  by (simp add: document_order_def reverse_order_def example_env_def)

end
